theory Spec2Isabelle
  imports Main "HOL-Library.Word"
begin

section \<open>Strings and the script classifier\<close>

text \<open>
  A JavaScript string is a sequence of UTF-16 code units. The regular expressions of
  content.js carry no \<open>u\<close> flag, so a character class is matched against single code
  units.
\<close>

type_synonym char16 = "16 word"
type_synonym jsstring = "char16 list"

text \<open>A character class \<open>[a-b c-d ...]\<close> is the list of its ranges, bounds included.\<close>

type_synonym char_class = "(char16 \<times> char16) list"

definition RTL_REGEX :: char_class where
  "RTL_REGEX =
     [(0x0600, 0x06FF), (0x0750, 0x077F), (0x08A0, 0x08FF), (0xFB50, 0xFDFF), (0xFE70, 0xFEFF)]"

fun class_matches :: "char_class \<Rightarrow> char16 \<Rightarrow> bool" where
  "class_matches [] c = False"
| "class_matches ((lo, hi) # rs) c = ((lo \<le> c \<and> c \<le> hi) \<or> class_matches rs c)"

text \<open>
  \<open>regex.test(text)\<close> for a regular expression that is one character class, not
  anchored: the first position whose code unit is in the class ends the search.
\<close>

fun regex_test :: "char_class \<Rightarrow> jsstring \<Rightarrow> bool" where
  "regex_test cls [] = False"
| "regex_test cls (c # cs) = (class_matches cls c \<or> regex_test cls cs)"

subsection \<open>The classifier as the specification words it\<close>

text \<open>
  The specification speaks of characters and their code points. \<open>code_points\<close> decodes
  UTF-16: a high surrogate followed by a low surrogate is one supplementary character,
  any other code unit (a lone surrogate too) is a character of its own.
\<close>

definition is_high_surrogate :: "char16 \<Rightarrow> bool" where
  "is_high_surrogate c = (0xD800 \<le> c \<and> c \<le> 0xDBFF)"

definition is_low_surrogate :: "char16 \<Rightarrow> bool" where
  "is_low_surrogate c = (0xDC00 \<le> c \<and> c \<le> 0xDFFF)"

fun code_points :: "jsstring \<Rightarrow> nat list" where
  "code_points [] = []"
| "code_points [c] = [unat c]"
| "code_points (h # l # cs) =
     (if is_high_surrogate h \<and> is_low_surrogate l
      then (0x10000 + (unat h - 0xD800) * 0x400 + (unat l - 0xDC00)) # code_points cs
      else unat h # code_points (l # cs))"

definition in_arabic_blocks :: "nat \<Rightarrow> bool" where
  "in_arabic_blocks cp =
     ((0x0600 \<le> cp \<and> cp \<le> 0x06FF)      \<comment> \<open>Arabic\<close>
    \<or> (0x0750 \<le> cp \<and> cp \<le> 0x077F)      \<comment> \<open>Arabic Supplement\<close>
    \<or> (0x08A0 \<le> cp \<and> cp \<le> 0x08FF)      \<comment> \<open>Arabic Extended-A\<close>
    \<or> (0xFB50 \<le> cp \<and> cp \<le> 0xFDFF)      \<comment> \<open>Arabic Presentation Forms-A\<close>
    \<or> (0xFE70 \<le> cp \<and> cp \<le> 0xFEFF))"    \<comment> \<open>Arabic Presentation Forms-B\<close>

definition is_ascii_alnum :: "char16 \<Rightarrow> bool" where
  "is_ascii_alnum c =
     ((0x41 \<le> c \<and> c \<le> 0x5A) \<or> (0x61 \<le> c \<and> c \<le> 0x7A) \<or> (0x30 \<le> c \<and> c \<le> 0x39))"


section \<open>Elements and the document tree\<close>

text \<open>
  What \<open>window.getComputedStyle(element)\<close> returns: the three properties that
  content.js reads.
\<close>

record css =
  display :: string
  visibility :: string
  direction :: string

text \<open>
  An element, with the properties and attributes that content.js reads or writes.
  \<open>localName\<close> is the local name of the element as the DOM holds it (lower case for
  the elements that the HTML parser creates); \<open>isHTML\<close> says that the element is in
  the HTML namespace and its document is an HTML document, which is when a type
  selector is compared without regard to ASCII case.
  \<open>processedAttr\<close> and \<open>styledAttr\<close> are the two marker attributes
  (\<open>None\<close>: the attribute is absent); \<open>styleDirection\<close> and \<open>styleTextAlign\<close> are
  the inline \<open>element.style\<close> properties, the empty string when unset.
  \<open>computedStyle\<close> is the outcome of the first \<open>getComputedStyle\<close> call that the
  candidate filter makes on the element, \<open>computedStyleRetry\<close> the outcome of the call
  it makes at the direction check when the first one threw; \<open>None\<close> means the call
  throws.
\<close>

record element =
  localName :: string
  isHTML :: bool
  contentEditable :: "string option"
  processedAttr :: "string option"
  styledAttr :: "string option"
  styleDirection :: string
  styleTextAlign :: string
  computedStyle :: "css option"
  computedStyleRetry :: "css option"

datatype node = Element element "node list" | Text jsstring | Comment jsstring

datatype attr_name = PROCESSED_ATTR | RTL_STYLE_ATTR

fun hasAttribute :: "attr_name \<Rightarrow> element \<Rightarrow> bool" where
  "hasAttribute PROCESSED_ATTR e = (processedAttr e \<noteq> None)"
| "hasAttribute RTL_STYLE_ATTR e = (styledAttr e \<noteq> None)"

fun setAttribute :: "attr_name \<Rightarrow> string \<Rightarrow> element \<Rightarrow> element" where
  "setAttribute PROCESSED_ATTR v e = e\<lparr>processedAttr := Some v\<rparr>"
| "setAttribute RTL_STYLE_ATTR v e = e\<lparr>styledAttr := Some v\<rparr>"

fun removeAttribute :: "attr_name \<Rightarrow> element \<Rightarrow> element" where
  "removeAttribute PROCESSED_ATTR e = e\<lparr>processedAttr := None\<rparr>"
| "removeAttribute RTL_STYLE_ATTR e = e\<lparr>styledAttr := None\<rparr>"

text \<open>
  How a type selector matches an element: the selector is put in ASCII lower case and
  compared with the local name when the element is an HTML element in an HTML
  document; otherwise it is compared with the local name as it is written.
\<close>

fun ascii_lower :: "char \<Rightarrow> char" where
  "ascii_lower (Char b0 b1 b2 b3 b4 b5 b6 b7) =
     (if 65 \<le> (of_char (Char b0 b1 b2 b3 b4 b5 b6 b7) :: nat) \<and>
         (of_char (Char b0 b1 b2 b3 b4 b5 b6 b7) :: nat) \<le> 90
      then Char b0 b1 b2 b3 b4 True b6 b7
      else Char b0 b1 b2 b3 b4 b5 b6 b7)"

definition matches_type :: "string \<Rightarrow> element \<Rightarrow> bool" where
  "matches_type sel e =
     (if isHTML e then localName e = map ascii_lower sel else localName e = sel)"

text \<open>
  \<open>SKIP_SELECTORS\<close> is a selector list of thirteen type selectors and one attribute
  selector, \<open>[contenteditable="true"]\<close>.
\<close>

definition SKIP_TAGS :: "string list" where
  "SKIP_TAGS = [''script'', ''style'', ''noscript'', ''code'', ''pre'', ''kbd'', ''var'', ''samp'',
                ''textarea'', ''input'', ''svg'', ''math'', ''iframe'']"

definition matches_SKIP_SELECTORS :: "element \<Rightarrow> bool" where
  "matches_SKIP_SELECTORS e =
     (list_ex (\<lambda>sel. matches_type sel e) SKIP_TAGS \<or> contentEditable e = Some ''true'')"

text \<open>\<open>TARGET_TAGS.join(',')\<close> is a selector list of eighteen type selectors, written in
  upper case.\<close>

definition TARGET_TAGS :: "string list" where
  "TARGET_TAGS = [''P'', ''LI'', ''TD'', ''TH'', ''H1'', ''H2'', ''H3'', ''H4'', ''H5'', ''H6'',
                  ''BLOCKQUOTE'', ''ARTICLE'', ''SECTION'', ''ASIDE'', ''SUMMARY'', ''FIGCAPTION'',
                  ''DD'', ''DT'']"

definition matches_TARGET_TAGS :: "element \<Rightarrow> bool" where
  "matches_TARGET_TAGS e = list_ex (\<lambda>sel. matches_type sel e) TARGET_TAGS"

text \<open>
  \<open>element.textContent\<close>: the text of all text-node descendants, in document order.
  A comment contributes nothing to the text of an element that contains it.
\<close>

fun textContent :: "node \<Rightarrow> jsstring" where
  "textContent (Element e cs) = concat (map textContent cs)"
| "textContent (Text t) = t"
| "textContent (Comment t) = []"

section \<open>Candidate filter, style corrector, tree walker\<close>

text \<open>
  \<open>isPotentialCandidate\<close> on an element with own data \<open>e\<close> and child nodes \<open>cs\<close>;
  \<open>isConnected\<close> is the element's property of that name. The result is the returned
  boolean and the element as the call leaves it. The tests follow the source line by
  line: structure, markers, first style read (a failure is caught and leaves the local
  variable null), text, direction (read from the first style object, or from a second
  call when there is none).
\<close>

definition isPotentialCandidate :: "bool \<Rightarrow> element \<Rightarrow> node list \<Rightarrow> bool \<times> element" where
  "isPotentialCandidate isConnected e cs =
     (if matches_SKIP_SELECTORS e \<or> \<not> isConnected then (False, e)
      else if hasAttribute PROCESSED_ATTR e \<or> hasAttribute RTL_STYLE_ATTR e then (False, e)
      else if (case computedStyle e of
                 Some st \<Rightarrow> display st = ''none'' \<or> visibility st = ''hidden''
               | None \<Rightarrow> False)
        then (False, setAttribute PROCESSED_ATTR ''hidden'' e)
      else
        let text = textContent (Element e cs) in
        if text = [] \<or> \<not> regex_test RTL_REGEX text
        then (False, setAttribute PROCESSED_ATTR ''no-rtl'' e)
        else
          (case (case computedStyle e of
                   Some st \<Rightarrow> Some (direction st)
                 | None \<Rightarrow> map_option direction (computedStyleRetry e)) of
             None \<Rightarrow> (False, setAttribute PROCESSED_ATTR ''style-error'' e)
           | Some d \<Rightarrow>
               if d = ''rtl'' then (False, setAttribute PROCESSED_ATTR ''already-rtl'' e)
               else (True, e)))"

definition applyRtlStyle :: "element \<Rightarrow> element" where
  "applyRtlStyle e =
     removeAttribute PROCESSED_ATTR
       (setAttribute RTL_STYLE_ATTR ''true''
          (e\<lparr>styleDirection := ''rtl'', styleTextAlign := ''right''\<rparr>))"

text \<open>
  Line 52 of content.js, the part of \<open>checkAndFixNode\<close> that treats the node itself:
  filter, then style or the generic marker.
\<close>

definition checkAndFix_self :: "bool \<Rightarrow> element \<Rightarrow> node list \<Rightarrow> element" where
  "checkAndFix_self isConnected e cs =
     (let (ok, e1) = isPotentialCandidate isConnected e cs in
      if ok then applyRtlStyle e1
      else if \<not> hasAttribute PROCESSED_ATTR e1 \<and> \<not> hasAttribute RTL_STYLE_ATTR e1
        then setAttribute PROCESSED_ATTR ''checked-subtree'' e1
      else e1)"

text \<open>
  \<open>checkAndFixNode\<close> from its second line on, for a node that is not resolved to a
  parent: a node that is no element, matches the skip list or is not connected is left
  alone, children included; otherwise the node is treated and every element child is
  walked. \<open>node.children\<close> holds the element children only, and the second equation
  leaves the other children as they are.
\<close>

fun checkAndFixNode :: "bool \<Rightarrow> node \<Rightarrow> node" where
  "checkAndFixNode isConnected (Element e cs) =
     (if matches_SKIP_SELECTORS e \<or> \<not> isConnected then Element e cs
      else Element (checkAndFix_self isConnected e cs) (map (checkAndFixNode isConnected) cs))"
| "checkAndFixNode isConnected n = n"

subsection \<open>Scan and revert on a subtree\<close>

text \<open>The body of the \<open>forEach\<close> in \<open>runScan\<close>; the candidates come from a query on
  \<open>document.body\<close>, so they are connected.\<close>

definition runScan_each :: "element \<Rightarrow> node list \<Rightarrow> element" where
  "runScan_each e cs =
     (let (ok, e1) = isPotentialCandidate True e cs in
      if ok then applyRtlStyle e1
      else if \<not> hasAttribute PROCESSED_ATTR e1 \<and> \<not> hasAttribute RTL_STYLE_ATTR e1
        then setAttribute PROCESSED_ATTR ''scan-checked'' e1
      else e1)"

fun runScan_subtree :: "node \<Rightarrow> node" where
  "runScan_subtree (Element e cs) =
     Element (if matches_TARGET_TAGS e then runScan_each e cs else e)
             (map runScan_subtree cs)"
| "runScan_subtree n = n"

text \<open>\<open>container.querySelectorAll\<close> yields the descendants of the container, not the
  container itself.\<close>

fun runScan_container :: "node \<Rightarrow> node" where
  "runScan_container (Element e cs) = Element e (map runScan_subtree cs)"
| "runScan_container n = n"

text \<open>The body of the \<open>forEach\<close> in \<open>revertAllStyles\<close>.\<close>

definition revertAllStyles_each :: "element \<Rightarrow> element" where
  "revertAllStyles_each e =
     removeAttribute PROCESSED_ATTR
       (removeAttribute RTL_STYLE_ATTR
          (e\<lparr>styleDirection := [], styleTextAlign := []\<rparr>))"

text \<open>\<open>document.querySelectorAll('[data-rtl-fixer-styled]')\<close> selects every element of the
  document that has the attribute.\<close>

fun revertAllStyles_subtree :: "node \<Rightarrow> node" where
  "revertAllStyles_subtree (Element e cs) =
     Element (if hasAttribute RTL_STYLE_ATTR e then revertAllStyles_each e else e)
             (map revertAllStyles_subtree cs)"
| "revertAllStyles_subtree n = n"


section \<open>The page: state variables, document, pending callbacks\<close>

text \<open>
  A callback that content.js hands to \<open>setTimeout\<close> or to the
  \<open>DOMContentLoaded\<close> listener, and a pending task: a timer with its delay in
  milliseconds, or a listener waiting for the event.
\<close>

datatype callback =
    StartObserverCB       \<comment> \<open>\<open>startObserver\<close>, rescheduled after 100 ms\<close>
  | RunInitialScanCB      \<comment> \<open>\<open>runInitialScan\<close>: sets the 50 ms timer of the first scan\<close>
  | InitialScanCB         \<comment> \<open>the first scan\<close>
  | SecondScanCB          \<comment> \<open>the delayed second scan\<close>

datatype task = Timeout nat callback | DOMContentLoaded callback

text \<open>
  The state variables of content.js with their names, and the part of the browser they
  act on: \<open>body\<close> is \<open>document.body\<close> (\<open>None\<close> while there is none),
  \<open>detached\<close> holds the trees that are not part of the document, \<open>readyState\<close> is
  \<open>document.readyState\<close>, \<open>observeThrows\<close> says whether \<open>observer.observe\<close> throws.
  \<open>observer\<close> and \<open>secondScanTimer\<close> record whether the variable holds an object or a
  timer id. The hostname is \<open>None\<close> for \<open>null\<close>.
\<close>

record page =
  isEnabled :: bool
  excludedSites :: "string list"
  currentHostname :: "string option"
  observer :: bool
  observerActive :: bool
  secondScanTimer :: bool
  body :: "node option"
  detached :: "node list"
  readyState :: string
  observeThrows :: bool
  pending :: "task list"

text \<open>\<open>currentHostname && excludedSites.includes(currentHostname)\<close>; the empty string
  is falsy.\<close>

definition hostnameExcluded :: "page \<Rightarrow> bool" where
  "hostnameExcluded s =
     (case currentHostname s of
        None \<Rightarrow> False
      | Some h \<Rightarrow> h \<noteq> [] \<and> h \<in> set (excludedSites s))"

text \<open>\<open>isEnabled && currentHostname && !excludedSites.includes(currentHostname)\<close>\<close>

definition shouldBeActive :: "page \<Rightarrow> bool" where
  "shouldBeActive s =
     (isEnabled s \<and>
      (case currentHostname s of
         None \<Rightarrow> False
       | Some h \<Rightarrow> h \<noteq> [] \<and> h \<notin> set (excludedSites s)))"

definition runScan :: "page \<Rightarrow> page" where
  "runScan s =
     (if \<not> isEnabled s \<or> hostnameExcluded s then s
      else case body s of
             None \<Rightarrow> s
           | Some b \<Rightarrow> s\<lparr>body := Some (runScan_container b)\<rparr>)"

definition revertAllStyles :: "page \<Rightarrow> page" where
  "revertAllStyles s = s\<lparr>body := map_option revertAllStyles_subtree (body s)\<rparr>"

definition startObserver :: "page \<Rightarrow> page" where
  "startObserver s =
     (if observer s \<or> \<not> isEnabled s \<or> hostnameExcluded s then s
      else case body s of
             None \<Rightarrow> s\<lparr>pending := pending s @ [Timeout 100 StartObserverCB]\<rparr>
           | Some b \<Rightarrow>
               if observeThrows s then s\<lparr>observer := False, observerActive := False\<rparr>
               else s\<lparr>observer := True, observerActive := True\<rparr>)"

text \<open>\<open>clearTimeout(secondScanTimer)\<close> takes the timer of the second scan out of the
  pending tasks.\<close>

definition clearSecondScanTimer :: "page \<Rightarrow> page" where
  "clearSecondScanTimer s =
     s\<lparr>pending := filter (\<lambda>t. t \<noteq> Timeout 3750 SecondScanCB) (pending s)\<rparr>"

definition stopObserver :: "page \<Rightarrow> page" where
  "stopObserver s =
     (let s1 = (if observer s then s\<lparr>observer := False, observerActive := False\<rparr> else s) in
      if secondScanTimer s1 then (clearSecondScanTimer s1)\<lparr>secondScanTimer := False\<rparr>
      else s1)"

subsection \<open>Node references and the mutation handler\<close>

text \<open>
  A reference to a node: its path of child indices from \<open>document.body\<close> or from the
  root of a detached tree. A node below the body is connected, a node of a detached
  tree is not.
\<close>

datatype noderef = NullRef | InBody "nat list" | InDetached nat "nat list"

fun node_at :: "node \<Rightarrow> nat list \<Rightarrow> node option" where
  "node_at n [] = Some n"
| "node_at (Element e cs) (i # p) = (if i < length cs then node_at (cs ! i) p else None)"
| "node_at n (i # p) = None"

fun update_at :: "nat list \<Rightarrow> (node \<Rightarrow> node) \<Rightarrow> node \<Rightarrow> node" where
  "update_at [] f n = f n"
| "update_at (i # p) f (Element e cs) =
     (if i < length cs then Element e (cs[i := update_at p f (cs ! i)]) else Element e cs)"
| "update_at (i # p) f n = n"

definition deref :: "page \<Rightarrow> noderef \<Rightarrow> node option" where
  "deref s r =
     (case r of
        NullRef \<Rightarrow> None
      | InBody p \<Rightarrow> (case body s of None \<Rightarrow> None | Some b \<Rightarrow> node_at b p)
      | InDetached i p \<Rightarrow> (if i < length (detached s) then node_at (detached s ! i) p else None))"

text \<open>\<open>modify r f s\<close> applies \<open>f\<close>, told whether the node is connected, to the node
  that \<open>r\<close> refers to.\<close>

definition modify :: "noderef \<Rightarrow> (bool \<Rightarrow> node \<Rightarrow> node) \<Rightarrow> page \<Rightarrow> page" where
  "modify r f s =
     (case r of
        NullRef \<Rightarrow> s
      | InBody p \<Rightarrow> s\<lparr>body := map_option (update_at p (f True)) (body s)\<rparr>
      | InDetached i p \<Rightarrow>
          (if i < length (detached s)
           then s\<lparr>detached := (detached s)[i := update_at p (f False) (detached s ! i)]\<rparr>
           else s))"

text \<open>\<open>node.parentElement\<close>. The parent of the body and of the root of a detached tree
  is outside the trees that content.js works on.\<close>

fun parentElement :: "noderef \<Rightarrow> noderef option" where
  "parentElement NullRef = None"
| "parentElement (InBody p) = (if p = [] then None else Some (InBody (butlast p)))"
| "parentElement (InDetached i p) = (if p = [] then None else Some (InDetached i (butlast p)))"

fun removeAttribute_node :: "attr_name \<Rightarrow> node \<Rightarrow> node" where
  "removeAttribute_node a (Element e cs) = Element (removeAttribute a e) cs"
| "removeAttribute_node a n = n"

text \<open>
  \<open>checkAndFixNode(node)\<close> as it is called with a reference: nothing for a null
  reference; a text node with a parent element is resolved to the parent, whose
  \<open>data-rtl-fixer-processed\<close> attribute is removed before the walk; a text node without
  one and a comment end at the node-type test.
\<close>

definition checkAndFixNode_ref :: "noderef \<Rightarrow> page \<Rightarrow> page" where
  "checkAndFixNode_ref r s =
     (case deref s r of
        None \<Rightarrow> s
      | Some (Text t) \<Rightarrow>
          (case parentElement r of
             None \<Rightarrow> s
           | Some pr \<Rightarrow>
               modify pr (\<lambda>c n. checkAndFixNode c (removeAttribute_node PROCESSED_ATTR n)) s)
      | Some (Comment t) \<Rightarrow> s
      | Some (Element e cs) \<Rightarrow> modify r checkAndFixNode s)"

datatype mutation = ChildList "noderef list" | CharacterData noderef | Attributes noderef

text \<open>The body of \<open>mutationsList.forEach\<close>: the added nodes of a child-list record are
  walked in order; for a character-data record whose target has a parent element, the
  parent loses its \<open>data-rtl-fixer-processed\<close> attribute and is walked.\<close>

fun handleMutations_each :: "mutation \<Rightarrow> page \<Rightarrow> page" where
  "handleMutations_each (ChildList addedNodes) s = fold checkAndFixNode_ref addedNodes s"
| "handleMutations_each (CharacterData target) s =
     (case deref s target of
        None \<Rightarrow> s
      | Some n \<Rightarrow>
          (case parentElement target of
             None \<Rightarrow> s
           | Some pr \<Rightarrow>
               modify pr (\<lambda>c n. checkAndFixNode c (removeAttribute_node PROCESSED_ATTR n)) s))"
| "handleMutations_each (Attributes target) s = s"

text \<open>The function that \<open>debounce\<close> wraps, as it runs on the batch once the 400 ms
  have passed.\<close>

definition handleMutations :: "mutation list \<Rightarrow> page \<Rightarrow> page" where
  "handleMutations mutationsList s =
     (if \<not> isEnabled s \<or> \<not> observerActive s \<or> hostnameExcluded s then s
      else fold handleMutations_each mutationsList s)"

section \<open>Settings retrieval, initialization, update messages\<close>

text \<open>
  The outcome of one \<open>browser.runtime.sendMessage({action: 'getSettings'})\<close>: the
  promise rejects, or it resolves to something that fails the shape test, or it
  resolves to settings.
\<close>

datatype response = Rejected | Malformed | Settings bool "string list"

text \<open>
  Exceptions are values: \<open>Inl\<close> of an error is a \<open>throw\<close> (for an \<open>async\<close>
  function, a rejected promise). A block that completes without throwing either falls
  through to the statement after it or returns a value from the function.
\<close>

datatype error = SendMessageError | InvalidSettingsError

datatype 'a completion = Normal | Return 'a

type_synonym settings = "bool \<times> string list"

text \<open>The \<open>try\<close> block of one attempt, and its \<open>catch\<close> block.\<close>

definition retry_try :: "response \<Rightarrow> nat \<Rightarrow> nat \<Rightarrow> error + settings option completion" where
  "retry_try resp attempt maxRetries =
     (case resp of
        Rejected \<Rightarrow> Inl SendMessageError
      | Settings en ex \<Rightarrow> Inr (Return (Some (en, ex)))
      | Malformed \<Rightarrow>
          if attempt = maxRetries then Inl InvalidSettingsError else Inr Normal)"

definition retry_catch :: "error \<Rightarrow> nat \<Rightarrow> nat \<Rightarrow> error + settings option completion" where
  "retry_catch err attempt maxRetries =
     (if attempt = maxRetries then Inr (Return None) else Inr Normal)"

definition retry_attempt :: "response \<Rightarrow> nat \<Rightarrow> nat \<Rightarrow> error + settings option completion" where
  "retry_attempt resp attempt maxRetries =
     (case retry_try resp attempt maxRetries of
        Inl err \<Rightarrow> retry_catch err attempt maxRetries
      | Inr c \<Rightarrow> Inr c)"

text \<open>
  The loop of \<open>getSettingsWithRetry\<close> from attempt \<open>attempt\<close> on. \<open>sendMessage k\<close> is
  the outcome of the \<open>k\<close>-th attempt. The result is an uncaught error, or the returned
  value (\<open>None\<close> for null) with the delays waited, in order.
\<close>

function getSettingsWithRetry_from ::
  "(nat \<Rightarrow> response) \<Rightarrow> nat \<Rightarrow> nat \<Rightarrow> nat \<Rightarrow> error + (settings option \<times> nat list)" where
  "getSettingsWithRetry_from sendMessage maxRetries initialDelay attempt =
     (if attempt \<le> maxRetries then
        (case retry_attempt (sendMessage attempt) attempt maxRetries of
           Inl err \<Rightarrow> Inl err
         | Inr (Return v) \<Rightarrow> Inr (v, [])
         | Inr Normal \<Rightarrow>
             (case getSettingsWithRetry_from sendMessage maxRetries initialDelay (attempt + 1) of
                Inl err \<Rightarrow> Inl err
              | Inr (v, delays) \<Rightarrow> Inr (v, initialDelay * 4 ^ (attempt - 1) # delays)))
      else Inr (None, []))"
  by pat_completeness auto
termination
  by (relation "measure (\<lambda>(sendMessage, maxRetries, initialDelay, attempt). Suc maxRetries - attempt)")
     auto

text \<open>The equation is unfolded by hand, one attempt at a time.\<close>

declare getSettingsWithRetry_from.simps [simp del]

definition getSettingsWithRetry ::
  "(nat \<Rightarrow> response) \<Rightarrow> nat \<Rightarrow> nat \<Rightarrow> error + (settings option \<times> nat list)" where
  "getSettingsWithRetry sendMessage maxRetries initialDelay =
     getSettingsWithRetry_from sendMessage maxRetries initialDelay 1"

definition addTask :: "task \<Rightarrow> page \<Rightarrow> page" where
  "addTask t s = s\<lparr>pending := pending s @ [t]\<rparr>"

text \<open>\<open>initialize\<close>, which calls \<open>getSettingsWithRetry\<close> with its default arguments
  \<open>maxRetries = 5\<close> and \<open>initialDelay = 200\<close>. An error of the awaited call would
  reject \<open>initialize\<close> in turn, since it has no \<open>try\<close> of its own.\<close>

definition initialize :: "(nat \<Rightarrow> response) \<Rightarrow> page \<Rightarrow> error + page" where
  "initialize sendMessage s =
     (case getSettingsWithRetry sendMessage 5 200 of
        Inl err \<Rightarrow> Inl err
      | Inr (Some (en, ex), delays) \<Rightarrow>
          (let s1 = s\<lparr>isEnabled := en, excludedSites := ex\<rparr> in
           if shouldBeActive s1 then
             let s2 = (if readyState s1 = ''complete'' \<or> readyState s1 = ''interactive''
                       then addTask (Timeout 50 InitialScanCB) s1
                       else addTask (DOMContentLoaded RunInitialScanCB) s1);
                 s3 = (if secondScanTimer s2 then clearSecondScanTimer s2 else s2);
                 s4 = (addTask (Timeout 3750 SecondScanCB) s3)\<lparr>secondScanTimer := True\<rparr>
             in Inr (startObserver s4)
           else Inr (stopObserver s1))
      | Inr (None, delays) \<Rightarrow> Inr (stopObserver (s\<lparr>isEnabled := False\<rparr>)))"

text \<open>The state variables as content.js sets them when the script loads, on a page
  with the given hostname, document and ready state.\<close>

definition initial_page ::
  "string option \<Rightarrow> node option \<Rightarrow> node list \<Rightarrow> string \<Rightarrow> bool \<Rightarrow> page" where
  "initial_page hostname b ds rs ot =
     \<lparr>isEnabled = False, excludedSites = [], currentHostname = hostname, observer = False,
      observerActive = False, secondScanTimer = False, body = b, detached = ds,
      readyState = rs, observeThrows = ot, pending = []\<rparr>"

text \<open>What a pending callback does when it runs.\<close>

fun run_callback :: "callback \<Rightarrow> page \<Rightarrow> page" where
  "run_callback StartObserverCB s = startObserver s"
| "run_callback RunInitialScanCB s = addTask (Timeout 50 InitialScanCB) s"
| "run_callback InitialScanCB s = (if body s \<noteq> None then runScan s else s)"
| "run_callback SecondScanCB s =
     (if shouldBeActive s \<and> body s \<noteq> None then runScan s else s)\<lparr>secondScanTimer := False\<rparr>"

text \<open>
  A message to the content script. Only \<open>updateState\<close> is acted on; each field of its
  payload may be absent (or of the wrong type, which the handler treats like absence).
\<close>

record payload =
  payload_isEnabled :: "bool option"
  payload_excludedSites :: "string list option"

datatype message = UpdateState payload | OtherMessage

text \<open>The \<open>browser.runtime.onMessage\<close> listener. Two arrays of strings have the same
  \<open>JSON.stringify\<close> exactly when they are equal.\<close>

definition onMessage :: "message \<Rightarrow> page \<Rightarrow> page" where
  "onMessage message s =
     (case message of
        OtherMessage \<Rightarrow> s
      | UpdateState pl \<Rightarrow>
          (let (s1, c1) = (case payload_isEnabled pl of
                             Some b \<Rightarrow> if isEnabled s \<noteq> b then (s\<lparr>isEnabled := b\<rparr>, True)
                                       else (s, False)
                           | None \<Rightarrow> (s, False));
               (s2, c2) = (case payload_excludedSites pl of
                             Some xs \<Rightarrow> if excludedSites s1 \<noteq> xs
                                        then (s1\<lparr>excludedSites := xs\<rparr>, True)
                                        else (s1, False)
                           | None \<Rightarrow> (s1, False));
               needsReCheck = (c1 \<or> c2)
           in
             if needsReCheck then
               (if shouldBeActive s2 \<and> \<not> observerActive s2
                then startObserver (if body s2 \<noteq> None then runScan s2 else s2)
                else if \<not> shouldBeActive s2 \<and> observerActive s2
                then revertAllStyles (stopObserver s2)
                else s2)
             else s2))"

subsection \<open>The retry chain of \<open>startObserver\<close>\<close>

text \<open>
  \<open>startObserver\<close> reschedules itself with \<open>setTimeout(startObserver, 100)\<close> while
  there is no body. \<open>startObserver_retries bodyAt k s\<close> follows that chain of timer
  callbacks from the \<open>k\<close>-th call on, in an execution where the \<open>j\<close>-th call finds
  \<open>document.body\<close> to be \<open>bodyAt j\<close> and nothing else happens in between. The call has
  rescheduled itself when it has appended its timer to the pending tasks; the timer
  then leaves the pending tasks as it fires. The chain may never end: the result is
  \<open>None\<close> then, and the page on which the last call returned otherwise.
\<close>

partial_function (option) startObserver_retries ::
  "(nat \<Rightarrow> node option) \<Rightarrow> nat \<Rightarrow> page \<Rightarrow> page option" where
  "startObserver_retries bodyAt k s =
     (let s0 = s\<lparr>body := bodyAt k\<rparr>; s1 = startObserver s0 in
      if pending s1 = pending s0 @ [Timeout 100 StartObserverCB]
      then startObserver_retries bodyAt (Suc k) (s1\<lparr>pending := pending s0\<rparr>)
      else Some s1)"

definition body_never :: "nat \<Rightarrow> node option" where
  "body_never k = None"

section \<open>Example documents\<close>

text \<open>The texts ``salam'' in Persian script and ``Hello'', as UTF-16.\<close>

definition salam :: jsstring where
  "salam = [0x0633, 0x0644, 0x0627, 0x0645]"

definition hello :: jsstring where
  "hello = [0x48, 0x65, 0x6C, 0x6C, 0x6F]"

definition ltr_css :: css where
  "ltr_css = \<lparr>display = ''block'', visibility = ''visible'', direction = ''ltr''\<rparr>"

text \<open>An HTML element with the given tag, no attributes, no inline style, rendered
  left to right.\<close>

definition plain :: "string \<Rightarrow> element" where
  "plain tag =
     \<lparr>localName = tag, isHTML = True, contentEditable = None, processedAttr = None,
      styledAttr = None,
      styleDirection = [], styleTextAlign = [],
      computedStyle = Some ltr_css, computedStyleRetry = Some ltr_css\<rparr>"

text \<open>\<open><p style="text-align: center">\<close>\<close>

definition centered_p :: element where
  "centered_p = (plain ''p'')\<lparr>styleTextAlign := ''center''\<rparr>"

text \<open>\<open><td contenteditable="true" style="text-align: left">\<close>\<close>

definition editable_td :: element where
  "editable_td = (plain ''td'')\<lparr>contentEditable := Some ''true'', styleTextAlign := ''left''\<rparr>"

text \<open>A paragraph on which every \<open>getComputedStyle\<close> call throws, and one on which
  only the first call does.\<close>

definition unreadable_p :: element where
  "unreadable_p = (plain ''p'')\<lparr>computedStyle := None, computedStyleRetry := None\<rparr>"

definition flaky_p :: element where
  "flaky_p = (plain ''p'')\<lparr>computedStyle := None\<rparr>"

text \<open>A page of \<open>fa.example\<close> on which the fixer is active and the observer runs; its
  body holds one paragraph, given with its child nodes.\<close>

definition active_page :: "element \<Rightarrow> node list \<Rightarrow> page" where
  "active_page e cs =
     \<lparr>isEnabled = True, excludedSites = [''other.example''],
      currentHostname = Some ''fa.example'', observer = True, observerActive = True,
      secondScanTimer = False, body = Some (Element (plain ''body'') [Element e cs]),
      detached = [], readyState = ''complete'', observeThrows = False, pending = []\<rparr>"

text \<open>A page on which the settings are active, no observer exists and the document has
  no body yet.\<close>

definition waiting_page :: page where
  "waiting_page =
     (initial_page (Some ''fa.example'') None [] ''loading'' False)\<lparr>isEnabled := True\<rparr>"

text \<open>An execution in which the body is there from the third call of
  \<open>startObserver\<close> on.\<close>

definition body_from_third :: "nat \<Rightarrow> node option" where
  "body_from_third k = (if k < 2 then None else Some (Element (plain ''body'') []))"

text \<open>A background that never answers with settings: it rejects the odd attempts and
  sends a malformed answer on the even ones.\<close>

definition failing_background :: "nat \<Rightarrow> response" where
  "failing_background k = (if even k then Malformed else Rejected)"

section \<open>Predicates of the properties\<close>

text \<open>The condition under which \<open>startObserver\<close> goes on to look for the body: no
  observer yet, enabled, hostname not excluded.\<close>

definition retry_guard :: "page \<Rightarrow> bool" where
  "retry_guard s = (\<not> observer s \<and> isEnabled s \<and> \<not> hostnameExcluded s)"

text \<open>At most one marker: an element with the styled marker has no processed marker.\<close>

definition elem_inv :: "element \<Rightarrow> bool" where
  "elem_inv e = (\<not> (hasAttribute RTL_STYLE_ATTR e \<and> hasAttribute PROCESSED_ATTR e))"

fun node_inv :: "node \<Rightarrow> bool" where
  "node_inv (Element e cs) = (elem_inv e \<and> list_all node_inv cs)"
| "node_inv n = True"

definition page_inv :: "page \<Rightarrow> bool" where
  "page_inv s =
     ((case body s of None \<Rightarrow> True | Some b \<Rightarrow> node_inv b) \<and> list_all node_inv (detached s))"

text \<open>The observer runs only on a page that is enabled and whose hostname is not
  excluded.\<close>

definition observer_inv :: "page \<Rightarrow> bool" where
  "observer_inv s = (observerActive s \<longrightarrow> observer s \<and> isEnabled s \<and> \<not> hostnameExcluded s)"

text \<open>
  The ways in which content.js changes one element: a marker that the candidate filter
  writes on a rejecting branch, \<open>applyRtlStyle\<close>, the generic marker of the walker or of
  the scanner (all three on an element without marker), the revert of a styled element,
  and the removal of the processed marker on a text change.
\<close>

inductive elem_step :: "element \<Rightarrow> element \<Rightarrow> bool" where
  by_filter:
    "\<not> hasAttribute PROCESSED_ATTR e \<Longrightarrow> \<not> hasAttribute RTL_STYLE_ATTR e \<Longrightarrow>
     v \<in> {''hidden'', ''no-rtl'', ''already-rtl'', ''style-error''} \<Longrightarrow>
     elem_step e (setAttribute PROCESSED_ATTR v e)"
| by_applyRtlStyle:
    "\<not> hasAttribute PROCESSED_ATTR e \<Longrightarrow> \<not> hasAttribute RTL_STYLE_ATTR e \<Longrightarrow>
     elem_step e (applyRtlStyle e)"
| by_checked:
    "\<not> hasAttribute PROCESSED_ATTR e \<Longrightarrow> \<not> hasAttribute RTL_STYLE_ATTR e \<Longrightarrow>
     v \<in> {''checked-subtree'', ''scan-checked''} \<Longrightarrow>
     elem_step e (setAttribute PROCESSED_ATTR v e)"
| by_revert:
    "hasAttribute RTL_STYLE_ATTR e \<Longrightarrow> elem_step e (revertAllStyles_each e)"
| by_text_change:
    "elem_step e (removeAttribute PROCESSED_ATTR e)"

text \<open>
  The three ways alone that the specification names for a change of an element:
  \<open>applyRtlStyle\<close>, the generic marker of the walker or of the scanner, and the revert,
  each allowed on any element.
\<close>

inductive claimed_step :: "element \<Rightarrow> element \<Rightarrow> bool" where
  claimed_applyRtlStyle: "claimed_step e (applyRtlStyle e)"
| claimed_checked:
    "v \<in> {''checked-subtree'', ''scan-checked''} \<Longrightarrow>
     claimed_step e (setAttribute PROCESSED_ATTR v e)"
| claimed_revert: "claimed_step e (revertAllStyles_each e)"

text \<open>
  Two trees of the same shape and with the same texts, every element of the second
  being the element at the same place of the first after a sequence of such changes;
  and the same for the body and the detached trees of two pages.
\<close>

inductive node_steps :: "node \<Rightarrow> node \<Rightarrow> bool" where
  steps_Element:
    "elem_step\<^sup>*\<^sup>* e e' \<Longrightarrow> list_all2 node_steps cs cs' \<Longrightarrow>
     node_steps (Element e cs) (Element e' cs')"
| steps_Text: "node_steps (Text t) (Text t)"
| steps_Comment: "node_steps (Comment t) (Comment t)"

definition page_steps :: "page \<Rightarrow> page \<Rightarrow> bool" where
  "page_steps s s' =
     (rel_option node_steps (body s) (body s') \<and> list_all2 node_steps (detached s) (detached s'))"

text \<open>One operation of the core on the page.\<close>

inductive core_op :: "page \<Rightarrow> page \<Rightarrow> bool" where
  op_runScan: "core_op s (runScan s)"
| op_checkAndFixNode: "core_op s (checkAndFixNode_ref r s)"
| op_handleMutations: "core_op s (handleMutations ms s)"
| op_revertAllStyles: "core_op s (revertAllStyles s)"
| op_startObserver: "core_op s (startObserver s)"
| op_stopObserver: "core_op s (stopObserver s)"
| op_callback: "core_op s (run_callback cb s)"
| op_onMessage: "core_op s (onMessage m s)"
| op_initialize: "initialize sendMessage s = Inr s' \<Longrightarrow> core_op s s'"

section \<open>The script classifier\<close>

lemma class_matches_RTL: "class_matches RTL_REGEX c = in_arabic_blocks (unat c)"
  by (simp add: RTL_REGEX_def in_arabic_blocks_def word_le_nat_alt)

lemma high_surrogate_not_RTL: "is_high_surrogate c \<Longrightarrow> \<not> class_matches RTL_REGEX c"
  by (auto simp add: RTL_REGEX_def is_high_surrogate_def word_le_nat_alt)

lemma low_surrogate_not_RTL: "is_low_surrogate c \<Longrightarrow> \<not> class_matches RTL_REGEX c"
  by (auto simp add: RTL_REGEX_def is_low_surrogate_def word_le_nat_alt)

lemma supplementary_not_arabic: "\<not> in_arabic_blocks (0x10000 + a * 0x400 + b)"
  by (simp add: in_arabic_blocks_def)

lemma ascii_alnum_not_RTL: "is_ascii_alnum c \<Longrightarrow> \<not> class_matches RTL_REGEX c"
  by (auto simp add: RTL_REGEX_def is_ascii_alnum_def word_le_nat_alt)

lemma regex_test_code_points:
  "regex_test RTL_REGEX s = (\<exists>cp \<in> set (code_points s). in_arabic_blocks cp)"
proof (induction s rule: code_points.induct)
  case 1
  then show ?case by simp
next
  case (2 c)
  then show ?case by (simp add: class_matches_RTL)
next
  case (3 h l cs)
  show ?case
  proof (cases "is_high_surrogate h \<and> is_low_surrogate l")
    case True
    then have cp: "code_points (h # l # cs) =
        (0x10000 + (unat h - 0xD800) * 0x400 + (unat l - 0xDC00)) # code_points cs"
      by simp
    have ih: "regex_test RTL_REGEX cs = (\<exists>cp \<in> set (code_points cs). in_arabic_blocks cp)"
      using "3.IH"(1) True by simp
    from True have "\<not> class_matches RTL_REGEX h" "\<not> class_matches RTL_REGEX l"
      by (simp_all add: high_surrogate_not_RTL low_surrogate_not_RTL)
    then have "regex_test RTL_REGEX (h # l # cs) = regex_test RTL_REGEX cs"
      by simp
    with ih show ?thesis
      unfolding cp using supplementary_not_arabic by simp
  next
    case False
    then have cp: "code_points (h # l # cs) = unat h # code_points (l # cs)"
      by auto
    have ih: "regex_test RTL_REGEX (l # cs) =
        (\<exists>cp \<in> set (code_points (l # cs)). in_arabic_blocks cp)"
      using "3.IH"(2) False by blast
    have "regex_test RTL_REGEX (h # l # cs) =
        (in_arabic_blocks (unat h) \<or> regex_test RTL_REGEX (l # cs))"
      by (simp add: class_matches_RTL)
    with ih show ?thesis
      unfolding cp by simp
  qed
qed

lemma regex_test_ascii_alnum: "\<forall>c \<in> set s. is_ascii_alnum c \<Longrightarrow> \<not> regex_test RTL_REGEX s"
  by (induction s) (auto simp: ascii_alnum_not_RTL)

lemma regex_test_nonempty: "regex_test cls s \<Longrightarrow> s \<noteq> []"
  by auto

lemma regex_test_salam: "regex_test RTL_REGEX salam"
  by (simp add: salam_def RTL_REGEX_def)

lemma regex_test_hello: "\<not> regex_test RTL_REGEX hello"
  by (simp add: hello_def RTL_REGEX_def)

text \<open>
  Claim C1. The test \<open>RTL_REGEX.test(text)\<close> that \<open>isPotentialCandidate\<close> applies is
  true exactly when the string has a character whose code point lies in one of the
  blocks Arabic (U+0600 to U+06FF), Arabic Supplement (U+0750 to U+077F), Arabic
  Extended-A (U+08A0 to U+08FF), Arabic Presentation Forms-A (U+FB50 to U+FDFF) or
  Forms-B (U+FE70 to U+FEFF); on a string of ASCII letters and digits only it is false.
\<close>

theorem C1_script_classifier:
  "(regex_test RTL_REGEX s \<longleftrightarrow> (\<exists>cp \<in> set (code_points s). in_arabic_blocks cp)) \<and>
   ((\<forall>c \<in> set s. is_ascii_alnum c) \<longrightarrow> \<not> regex_test RTL_REGEX s)"
  using regex_test_code_points [of s] regex_test_ascii_alnum [of s] by blast

theorem C1_script_classifier_witness:
  "regex_test RTL_REGEX [0x48, 0x0633] \<and>
   (\<exists>cp \<in> set (code_points [0x48, 0x0633]). in_arabic_blocks cp) \<and>
   is_ascii_alnum 0x48 \<and> is_ascii_alnum 0x69 \<and> is_ascii_alnum 0x37 \<and>
   \<not> regex_test RTL_REGEX [0x48, 0x69, 0x37]"
proof -
  have a: "is_ascii_alnum 0x48" "is_ascii_alnum 0x69" "is_ascii_alnum 0x37"
    by (simp_all add: is_ascii_alnum_def)
  then have a': "\<forall>c \<in> set [0x48, 0x69, 0x37]. is_ascii_alnum c"
    by simp
  have b: "regex_test RTL_REGEX [0x48, 0x0633]"
    by (simp add: RTL_REGEX_def)
  show ?thesis
    using a a' b C1_script_classifier [of "[0x48, 0x0633]"]
      C1_script_classifier [of "[0x48, 0x69, 0x37]"]
    by blast
qed

section \<open>The candidate filter and the style corrector on one element\<close>

lemma isPotentialCandidate_result:
  "isPotentialCandidate c e cs = (True, e) \<or>
   isPotentialCandidate c e cs = (False, e) \<or>
   (processedAttr e = None \<and> styledAttr e = None \<and>
    \<not> fst (isPotentialCandidate c e cs) \<and>
    processedAttr (snd (isPotentialCandidate c e cs)) \<noteq> None \<and>
    snd (isPotentialCandidate c e cs) =
      e\<lparr>processedAttr := processedAttr (snd (isPotentialCandidate c e cs))\<rparr>)"
  unfolding isPotentialCandidate_def Let_def
  by (simp split: option.split del: textContent.simps)

lemma isPotentialCandidate_marked:
  "hasAttribute PROCESSED_ATTR e \<or> hasAttribute RTL_STYLE_ATTR e \<Longrightarrow>
   isPotentialCandidate c e cs = (False, e)"
  by (simp add: isPotentialCandidate_def)

lemma isPotentialCandidate_accepts_unmarked:
  "fst (isPotentialCandidate c e cs) \<Longrightarrow> processedAttr e = None \<and> styledAttr e = None"
  using isPotentialCandidate_marked [of e c cs] by (cases "processedAttr e"; cases "styledAttr e") auto

lemma styled_applyRtlStyle: "hasAttribute RTL_STYLE_ATTR (applyRtlStyle e)"
  by (simp add: applyRtlStyle_def)

lemma checkAndFix_self_styled:
  "hasAttribute RTL_STYLE_ATTR e \<Longrightarrow> checkAndFix_self c e cs = e"
  by (simp add: checkAndFix_self_def isPotentialCandidate_marked)

lemma runScan_each_styled:
  "hasAttribute RTL_STYLE_ATTR e \<Longrightarrow> runScan_each e cs = e"
  by (simp add: runScan_each_def isPotentialCandidate_marked)

lemma checkAndFixNode_styled:
  "hasAttribute RTL_STYLE_ATTR e \<Longrightarrow>
   \<exists>cs'. checkAndFixNode c (Element e cs) = Element e cs'"
  by (simp add: checkAndFix_self_styled)

lemma map_ascii_lower_SKIP_TAGS: "map (map ascii_lower) SKIP_TAGS = SKIP_TAGS"
  by (simp add: SKIP_TAGS_def)

lemma map_ascii_lower_TARGET_TAGS:
  "map (map ascii_lower) TARGET_TAGS =
     [''p'', ''li'', ''td'', ''th'', ''h1'', ''h2'', ''h3'', ''h4'', ''h5'', ''h6'',
      ''blockquote'', ''article'', ''section'', ''aside'', ''summary'', ''figcaption'',
      ''dd'', ''dt'']"
  by (simp add: TARGET_TAGS_def)

lemma list_ex_matches_type_HTML:
  "isHTML e \<Longrightarrow>
   list_ex (\<lambda>sel. matches_type sel e) sels = (localName e \<in> set (map (map ascii_lower) sels))"
  by (induction sels) (auto simp add: matches_type_def)

lemma matches_SKIP_SELECTORS_HTML:
  "isHTML e \<Longrightarrow>
   matches_SKIP_SELECTORS e = (localName e \<in> set SKIP_TAGS \<or> contentEditable e = Some ''true'')"
  by (simp add: matches_SKIP_SELECTORS_def list_ex_matches_type_HTML map_ascii_lower_SKIP_TAGS)

lemma matches_SKIP_SELECTORS_plain: "matches_SKIP_SELECTORS (plain tag) = (tag \<in> set SKIP_TAGS)"
proof -
  have "isHTML (plain tag)" "localName (plain tag) = tag" "contentEditable (plain tag) = None"
    by (simp_all add: plain_def)
  then show ?thesis
    by (simp add: matches_SKIP_SELECTORS_HTML)
qed

lemma candidate_plain:
  "tag \<notin> set SKIP_TAGS \<Longrightarrow> isPotentialCandidate True (plain tag) [Text salam] = (True, plain tag)"
  using regex_test_salam regex_test_nonempty [OF regex_test_salam]
  unfolding isPotentialCandidate_def matches_SKIP_SELECTORS_plain
  by (simp add: plain_def ltr_css_def)

lemma p_not_skipped: "''p'' \<notin> set SKIP_TAGS"
  by (simp add: SKIP_TAGS_def)

text \<open>
  Claim C2. The fix is idempotent. After \<open>applyRtlStyle\<close> the element carries the
  \<open>data-rtl-fixer-styled\<close> marker, so the candidate filter rejects it and leaves it as
  it is, and the fix path of \<open>checkAndFixNode\<close> and of \<open>runScan\<close> (filter, then style or
  generic marker) changes nothing: direction \<open>rtl\<close>, alignment \<open>right\<close>, the one marker
  \<open>styled = true\<close> and no \<open>processed\<close> marker, as after the first application. So a
  walk and a scan of the subtree leave the element itself as it is. The
  removal of the \<open>processed\<close> marker that precedes the walk of a text node's parent
  changes nothing either.
\<close>

theorem C2_fix_idempotent:
  "hasAttribute RTL_STYLE_ATTR (applyRtlStyle e) \<and>
   isPotentialCandidate c (applyRtlStyle e) cs = (False, applyRtlStyle e) \<and>
   checkAndFix_self c (applyRtlStyle e) cs = applyRtlStyle e \<and>
   runScan_each (applyRtlStyle e) cs = applyRtlStyle e \<and>
   (\<exists>cs'. checkAndFixNode c (Element (applyRtlStyle e) cs) = Element (applyRtlStyle e) cs') \<and>
   (\<exists>cs'. runScan_subtree (Element (applyRtlStyle e) cs) = Element (applyRtlStyle e) cs') \<and>
   removeAttribute PROCESSED_ATTR (applyRtlStyle e) = applyRtlStyle e \<and>
   styleDirection (applyRtlStyle e) = ''rtl'' \<and>
   styleTextAlign (applyRtlStyle e) = ''right'' \<and>
   styledAttr (applyRtlStyle e) = Some ''true'' \<and>
   processedAttr (applyRtlStyle e) = None"
proof -
  have st: "hasAttribute RTL_STYLE_ATTR (applyRtlStyle e)"
    by (rule styled_applyRtlStyle)
  have "isPotentialCandidate c (applyRtlStyle e) cs = (False, applyRtlStyle e)"
    using st by (rule isPotentialCandidate_marked [OF disjI2])
  moreover have "checkAndFix_self c (applyRtlStyle e) cs = applyRtlStyle e"
    using st by (rule checkAndFix_self_styled)
  moreover have scan: "runScan_each (applyRtlStyle e) cs = applyRtlStyle e"
    using st by (rule runScan_each_styled)
  moreover have "\<exists>cs'. checkAndFixNode c (Element (applyRtlStyle e) cs) = Element (applyRtlStyle e) cs'"
    using st by (rule checkAndFixNode_styled)
  moreover have "\<exists>cs'. runScan_subtree (Element (applyRtlStyle e) cs) = Element (applyRtlStyle e) cs'"
    by (simp add: scan)
  moreover have "removeAttribute PROCESSED_ATTR (applyRtlStyle e) = applyRtlStyle e"
    by (simp add: applyRtlStyle_def)
  moreover have "styleDirection (applyRtlStyle e) = ''rtl''"
    "styleTextAlign (applyRtlStyle e) = ''right''"
    "styledAttr (applyRtlStyle e) = Some ''true''"
    "processedAttr (applyRtlStyle e) = None"
    by (simp_all add: applyRtlStyle_def)
  ultimately show ?thesis using st by blast
qed

theorem C2_fix_idempotent_witness:
  "fst (isPotentialCandidate True (plain ''p'') [Text salam]) \<and>
   isPotentialCandidate True (applyRtlStyle (plain ''p'')) [Text salam] =
     (False, applyRtlStyle (plain ''p'')) \<and>
   checkAndFix_self True (applyRtlStyle (plain ''p'')) [Text salam] = applyRtlStyle (plain ''p'') \<and>
   runScan_each (applyRtlStyle (plain ''p'')) [Text salam] = applyRtlStyle (plain ''p'')"
  using C2_fix_idempotent [where e = "plain ''p''" and c = True and cs = "[Text salam]"]
    candidate_plain [OF p_not_skipped]
  by simp

text \<open>
  Claim C3, as stated: \<open>applyRtlStyle\<close> followed by the revert restores the inline
  direction and text alignment that the element had before the fix. It fails on a
  paragraph with an inline \<open>text-align: center\<close>, which the filter accepts: the revert
  leaves the alignment empty.
\<close>

theorem C3_round_trip_counterexample:
  "fst (isPotentialCandidate True centered_p [Text salam]) \<and>
   styleTextAlign (revertAllStyles_each (applyRtlStyle centered_p)) \<noteq> styleTextAlign centered_p"
  using regex_test_salam regex_test_nonempty [OF regex_test_salam]
  by (simp add: isPotentialCandidate_def centered_p_def plain_def matches_SKIP_SELECTORS_def matches_type_def
      SKIP_TAGS_def ltr_css_def revertAllStyles_each_def applyRtlStyle_def)

text \<open>
  Claim C3, amended. \<open>applyRtlStyle\<close> followed by the revert leaves the inline direction
  and text alignment empty and removes both markers, the other properties of the
  element being as before; the styled marker that \<open>applyRtlStyle\<close> sets is what makes
  \<open>revertAllStyles\<close> select the element. The element is as before the fix when its
  inline direction and alignment were empty and it carried no marker, which holds for
  every element that the filter accepts with no inline direction or alignment.
\<close>

theorem C3_round_trip:
  "revertAllStyles_each (applyRtlStyle e) =
     e\<lparr>processedAttr := None, styledAttr := None, styleDirection := [], styleTextAlign := []\<rparr> \<and>
   revertAllStyles_subtree (Element (applyRtlStyle e) cs) =
     Element (revertAllStyles_each (applyRtlStyle e)) (map revertAllStyles_subtree cs) \<and>
   (fst (isPotentialCandidate c e cs) \<and> styleDirection e = [] \<and> styleTextAlign e = [] \<longrightarrow>
      revertAllStyles_each (applyRtlStyle e) = e)"
proof -
  have a: "revertAllStyles_each (applyRtlStyle e) =
     e\<lparr>processedAttr := None, styledAttr := None, styleDirection := [], styleTextAlign := []\<rparr>"
    by (simp add: revertAllStyles_each_def applyRtlStyle_def)
  have b: "revertAllStyles_subtree (Element (applyRtlStyle e) cs) =
     Element (revertAllStyles_each (applyRtlStyle e)) (map revertAllStyles_subtree cs)"
    using styled_applyRtlStyle [of e] by simp
  have c: "revertAllStyles_each (applyRtlStyle e) = e"
    if "fst (isPotentialCandidate c e cs)" "styleDirection e = []" "styleTextAlign e = []"
    using isPotentialCandidate_accepts_unmarked [OF that(1)] that(2,3) unfolding a
    by (cases e) simp
  from a b c show ?thesis by blast
qed

theorem C3_round_trip_witness:
  "fst (isPotentialCandidate True (plain ''p'') [Text salam]) \<and>
   styleDirection (plain ''p'') = [] \<and> styleTextAlign (plain ''p'') = [] \<and>
   revertAllStyles_each (applyRtlStyle (plain ''p'')) = plain ''p''"
proof -
  have "fst (isPotentialCandidate True (plain ''p'') [Text salam])"
    by (simp add: candidate_plain [OF p_not_skipped])
  moreover have "styleDirection (plain ''p'') = []" "styleTextAlign (plain ''p'') = []"
    by (simp_all add: plain_def)
  ultimately show ?thesis
    using C3_round_trip [where e = "plain ''p''" and c = True and cs = "[Text salam]"] by blast
qed

text \<open>
  Claim C6, as stated: whenever a computed-style read fails during the filter, the
  element is rejected and marked \<open>style-error\<close>. It fails on a paragraph with the text
  ``Hello'' on which every read throws: the failure of the first read is caught and
  ignored, and the text test marks the element \<open>no-rtl\<close>. It fails also on a paragraph
  with Persian text on which only the first read throws: the second read gives
  \<open>ltr\<close> and the element is accepted.
\<close>

theorem C6_style_error_counterexample:
  "computedStyle unreadable_p = None \<and>
   isPotentialCandidate True unreadable_p [Text hello] =
     (False, setAttribute PROCESSED_ATTR ''no-rtl'' unreadable_p) \<and>
   computedStyle flaky_p = None \<and>
   isPotentialCandidate True flaky_p [Text salam] = (True, flaky_p)"
  using regex_test_salam regex_test_hello regex_test_nonempty [OF regex_test_salam]
  by (simp add: isPotentialCandidate_def unreadable_p_def flaky_p_def plain_def
      matches_SKIP_SELECTORS_def matches_type_def SKIP_TAGS_def ltr_css_def)

text \<open>
  Claim C6, amended. Let the element pass the structural and the marker tests and let
  the first style read of the filter fail. The failure is caught and ignored: when the
  text has no right-to-left character the element is marked \<open>no-rtl\<close>; otherwise the
  style is read a second time, and the direction it gives decides (\<open>already-rtl\<close> or
  accepted). Only when this read at the direction check fails too does the filter
  reject the element and mark it \<open>style-error\<close>. With that marker the filter, the
  walker and the scanner leave the element as it is, whatever its text, until the
  marker is removed; removing it, as the handling of a text change does, gives back the
  element as it was.
\<close>

theorem C6_style_error:
  assumes "\<not> matches_SKIP_SELECTORS e" and "c"
    and "\<not> hasAttribute PROCESSED_ATTR e" and "\<not> hasAttribute RTL_STYLE_ATTR e"
    and "computedStyle e = None"
  shows "(\<not> regex_test RTL_REGEX (textContent (Element e cs)) \<longrightarrow>
            isPotentialCandidate c e cs = (False, setAttribute PROCESSED_ATTR ''no-rtl'' e)) \<and>
         (regex_test RTL_REGEX (textContent (Element e cs)) \<and> computedStyleRetry e = Some st \<longrightarrow>
            isPotentialCandidate c e cs =
              (if direction st = ''rtl'' then (False, setAttribute PROCESSED_ATTR ''already-rtl'' e)
               else (True, e))) \<and>
         (regex_test RTL_REGEX (textContent (Element e cs)) \<and> computedStyleRetry e = None \<longrightarrow>
            isPotentialCandidate c e cs = (False, setAttribute PROCESSED_ATTR ''style-error'' e)) \<and>
         isPotentialCandidate c (setAttribute PROCESSED_ATTR ''style-error'' e) cs' =
           (False, setAttribute PROCESSED_ATTR ''style-error'' e) \<and>
         checkAndFix_self c (setAttribute PROCESSED_ATTR ''style-error'' e) cs' =
           setAttribute PROCESSED_ATTR ''style-error'' e \<and>
         runScan_each (setAttribute PROCESSED_ATTR ''style-error'' e) cs' =
           setAttribute PROCESSED_ATTR ''style-error'' e \<and>
         removeAttribute PROCESSED_ATTR (setAttribute PROCESSED_ATTR ''style-error'' e) = e"
proof -
  let ?e = "setAttribute PROCESSED_ATTR ''style-error'' e"
  let ?text = "textContent (Element e cs)"
  have no_rtl: "isPotentialCandidate c e cs = (False, setAttribute PROCESSED_ATTR ''no-rtl'' e)"
    if "\<not> regex_test RTL_REGEX ?text"
    using assms that unfolding isPotentialCandidate_def Let_def
    by (simp del: textContent.simps)
  have second: "isPotentialCandidate c e cs =
      (if direction st = ''rtl'' then (False, setAttribute PROCESSED_ATTR ''already-rtl'' e)
       else (True, e))"
    if "regex_test RTL_REGEX ?text" "computedStyleRetry e = Some st"
    using assms that regex_test_nonempty [OF that(1)] unfolding isPotentialCandidate_def Let_def
    by (simp del: textContent.simps)
  have error: "isPotentialCandidate c e cs = (False, ?e)"
    if "regex_test RTL_REGEX ?text" "computedStyleRetry e = None"
    using assms that regex_test_nonempty [OF that(1)] unfolding isPotentialCandidate_def Let_def
    by (simp del: textContent.simps)
  have marked: "hasAttribute PROCESSED_ATTR ?e"
    by simp
  have again: "isPotentialCandidate c ?e cs' = (False, ?e)"
    using marked by (rule isPotentialCandidate_marked [OF disjI1])
  have walk: "checkAndFix_self c ?e cs' = ?e"
    unfolding checkAndFix_self_def again using marked by simp
  have scan: "runScan_each ?e cs' = ?e"
    unfolding runScan_each_def isPotentialCandidate_marked [OF disjI1, OF marked]
    using marked by simp
  have restored: "removeAttribute PROCESSED_ATTR ?e = e"
    using assms(3) by (cases e) simp
  from no_rtl second error again walk scan restored show ?thesis by blast
qed

theorem C6_style_error_witness:
  "\<not> matches_SKIP_SELECTORS unreadable_p \<and>
   \<not> hasAttribute PROCESSED_ATTR unreadable_p \<and> \<not> hasAttribute RTL_STYLE_ATTR unreadable_p \<and>
   computedStyle unreadable_p = None \<and> computedStyleRetry unreadable_p = None \<and>
   regex_test RTL_REGEX (textContent (Element unreadable_p [Text salam])) \<and>
   isPotentialCandidate True unreadable_p [Text salam] =
     (False, setAttribute PROCESSED_ATTR ''style-error'' unreadable_p) \<and>
   isPotentialCandidate True (setAttribute PROCESSED_ATTR ''style-error'' unreadable_p) [Text hello] =
     (False, setAttribute PROCESSED_ATTR ''style-error'' unreadable_p) \<and>
   \<not> regex_test RTL_REGEX (textContent (Element unreadable_p [Text hello])) \<and>
   isPotentialCandidate True unreadable_p [Text hello] =
     (False, setAttribute PROCESSED_ATTR ''no-rtl'' unreadable_p)"
proof -
  have 1: "\<not> matches_SKIP_SELECTORS unreadable_p"
    by (simp add: unreadable_p_def plain_def matches_SKIP_SELECTORS_def matches_type_def SKIP_TAGS_def)
  have 2: "\<not> hasAttribute PROCESSED_ATTR unreadable_p" "\<not> hasAttribute RTL_STYLE_ATTR unreadable_p"
    by (simp_all add: unreadable_p_def plain_def)
  have 3: "regex_test RTL_REGEX (textContent (Element unreadable_p [Text salam]))"
    "\<not> regex_test RTL_REGEX (textContent (Element unreadable_p [Text hello]))"
    using regex_test_salam regex_test_hello by simp_all
  have 4: "computedStyle unreadable_p = None" "computedStyleRetry unreadable_p = None"
    by (simp_all add: unreadable_p_def)
  show ?thesis
    using C6_style_error [OF 1 TrueI 2 4(1), where cs = "[Text salam]" and cs' = "[Text hello]"]
      C6_style_error [OF 1 TrueI 2 4(1), where cs = "[Text hello]"] 1 2 3 4
    by blast
qed

section \<open>The observer and its retry chain\<close>

lemma hostnameExcluded_body: "hostnameExcluded (s\<lparr>body := b\<rparr>) = hostnameExcluded s"
  by (simp add: hostnameExcluded_def split: option.split)

lemma hostnameExcluded_pending: "hostnameExcluded (s\<lparr>pending := ts\<rparr>) = hostnameExcluded s"
  by (simp add: hostnameExcluded_def split: option.split)

lemma startObserver_no_body:
  "\<not> observer s \<Longrightarrow> isEnabled s \<Longrightarrow> \<not> hostnameExcluded s \<Longrightarrow> body s = None \<Longrightarrow>
   startObserver s = s\<lparr>pending := pending s @ [Timeout 100 StartObserverCB]\<rparr>"
  by (simp add: startObserver_def)

lemma startObserver_pending_body:
  "body s \<noteq> None \<Longrightarrow> pending (startObserver s) = pending s"
  by (auto simp add: startObserver_def)

lemma startObserver_guard:
  "observer s \<or> \<not> isEnabled s \<or> hostnameExcluded s \<Longrightarrow> startObserver s = s"
  by (auto simp add: startObserver_def)

lemma retries_Some_body_appears:
  assumes "startObserver_retries bodyAt k s = Some s'"
  shows "\<not> (retry_guard s \<and> (\<forall>j \<ge> k. bodyAt j = None))"
proof (rule startObserver_retries.raw_induct
    [where P = "\<lambda>bodyAt k s s'. \<not> (retry_guard s \<and> (\<forall>j \<ge> k. bodyAt j = None))", OF _ assms])
  fix f :: "(nat \<Rightarrow> node option) \<Rightarrow> nat \<Rightarrow> page \<Rightarrow> page option"
  fix bodyAt k s s'
  assume IH: "\<And>bodyAt k s s'. f bodyAt k s = Some s' \<Longrightarrow>
      \<not> (retry_guard s \<and> (\<forall>j \<ge> k. bodyAt j = None))"
  assume step: "(let s0 = s\<lparr>body := bodyAt k\<rparr>; s1 = startObserver s0 in
      if pending s1 = pending s0 @ [Timeout 100 StartObserverCB]
      then f bodyAt (Suc k) (s1\<lparr>pending := pending s0\<rparr>)
      else Some s1) = Some s'"
  show "\<not> (retry_guard s \<and> (\<forall>j \<ge> k. bodyAt j = None))"
  proof
    assume g: "retry_guard s \<and> (\<forall>j \<ge> k. bodyAt j = None)"
    let ?s0 = "s\<lparr>body := bodyAt k\<rparr>"
    from g have b: "bodyAt k = None" by simp
    have st: "startObserver ?s0 = ?s0\<lparr>pending := pending ?s0 @ [Timeout 100 StartObserverCB]\<rparr>"
      using g b by (intro startObserver_no_body) (simp_all add: retry_guard_def hostnameExcluded_body hostnameExcluded_pending)
    from step have next_call: "f bodyAt (Suc k) ((startObserver ?s0)\<lparr>pending := pending ?s0\<rparr>) = Some s'"
      unfolding Let_def st by simp
    have "retry_guard ((startObserver ?s0)\<lparr>pending := pending ?s0\<rparr>)"
      using g unfolding st by (simp add: retry_guard_def hostnameExcluded_body hostnameExcluded_pending)
    moreover have "\<forall>j \<ge> Suc k. bodyAt j = None"
      using g by simp
    ultimately show False
      using IH [OF next_call] by blast
  qed
qed

lemma retries_never_end:
  assumes "retry_guard s" and "\<forall>j \<ge> k. bodyAt j = None"
  shows "startObserver_retries bodyAt k s = None"
proof (cases "startObserver_retries bodyAt k s")
  case None
  then show ?thesis .
next
  case (Some s')
  from retries_Some_body_appears [OF this] assms show ?thesis by blast
qed

lemma retries_stop_unguarded:
  assumes "\<not> retry_guard s"
  shows "startObserver_retries bodyAt k s = Some (s\<lparr>body := bodyAt k\<rparr>)"
proof -
  let ?s0 = "s\<lparr>body := bodyAt k\<rparr>"
  have "startObserver ?s0 = ?s0"
    using assms by (intro startObserver_guard) (simp add: retry_guard_def hostnameExcluded_body hostnameExcluded_pending)
  then show ?thesis
    by (subst startObserver_retries.simps) (simp add: Let_def)
qed

lemma retries_stop_body:
  assumes "bodyAt k \<noteq> None"
  shows "startObserver_retries bodyAt k s = Some (startObserver (s\<lparr>body := bodyAt k\<rparr>))"
proof -
  let ?s0 = "s\<lparr>body := bodyAt k\<rparr>"
  have "pending (startObserver ?s0) = pending ?s0"
    using assms by (intro startObserver_pending_body) simp
  then show ?thesis
    by (subst startObserver_retries.simps) (simp add: Let_def)
qed

lemma retries_step:
  assumes "retry_guard s" and "bodyAt k = None"
  shows "startObserver_retries bodyAt k s = startObserver_retries bodyAt (Suc k) (s\<lparr>body := None\<rparr>)"
proof -
  let ?s0 = "s\<lparr>body := bodyAt k\<rparr>"
  have st: "startObserver ?s0 = ?s0\<lparr>pending := pending ?s0 @ [Timeout 100 StartObserverCB]\<rparr>"
    using assms by (intro startObserver_no_body) (simp_all add: retry_guard_def hostnameExcluded_body hostnameExcluded_pending)
  show ?thesis
    by (subst startObserver_retries.simps) (simp add: Let_def st [unfolded assms(2)] assms(2))
qed

lemma retry_guard_body: "retry_guard (s\<lparr>body := b\<rparr>) = retry_guard s"
  by (simp add: retry_guard_def hostnameExcluded_body hostnameExcluded_pending)

lemma retries_end_when_body_appears:
  assumes "bodyAt (k + n) \<noteq> None"
  shows "\<exists>s'. startObserver_retries bodyAt k s = Some s'"
  using assms
proof (induction n arbitrary: k s)
  case 0
  then show ?case using retries_stop_body [of bodyAt k s] by simp
next
  case (Suc n)
  show ?case
  proof (cases "retry_guard s \<and> bodyAt k = None")
    case True
    then have "startObserver_retries bodyAt k s =
        startObserver_retries bodyAt (Suc k) (s\<lparr>body := None\<rparr>)"
      by (simp add: retries_step)
    moreover have "bodyAt (Suc k + n) \<noteq> None"
      using Suc.prems by simp
    ultimately show ?thesis
      using Suc.IH [of "Suc k" "s\<lparr>body := None\<rparr>"] by simp
  next
    case False
    then show ?thesis
      using retries_stop_unguarded [of s bodyAt k] retries_stop_body [of bodyAt k s] by blast
  qed
qed

lemma retry_guard_waiting_page: "retry_guard waiting_page"
  by (simp add: retry_guard_def waiting_page_def initial_page_def hostnameExcluded_def)

text \<open>
  Claim C9, as stated: when the body never becomes available, the retry loop of
  \<open>startObserver\<close> ends after a bounded number of retries. It fails on a page with
  active settings and no observer: every call finds no body and sets the timer again,
  and the chain of calls never ends.
\<close>

theorem C9_retry_bounded_counterexample:
  "isEnabled waiting_page \<and> \<not> observer waiting_page \<and> \<not> hostnameExcluded waiting_page \<and>
   startObserver_retries body_never 0 waiting_page = None"
proof -
  have "startObserver_retries body_never 0 waiting_page = None"
    using retry_guard_waiting_page by (intro retries_never_end) (simp_all add: body_never_def)
  then show ?thesis
    using retry_guard_waiting_page by (simp add: retry_guard_def hostnameExcluded_body hostnameExcluded_pending)
qed

text \<open>
  Claim C9, amended. \<open>startObserver\<close> sets its 100 ms timer again on every call that
  finds no body while no observer exists, the fixer is enabled and the hostname is not
  excluded; there is no bound on the number of retries. The chain of calls ends when a
  call finds the body, and at once when that condition does not hold; when the body
  never appears and the condition holds, it never ends.
\<close>

theorem C9_retry_chain:
  "(retry_guard s \<and> (\<forall>j \<ge> k. bodyAt j = None) \<longrightarrow> startObserver_retries bodyAt k s = None) \<and>
   (bodyAt (k + n) \<noteq> None \<longrightarrow> (\<exists>s'. startObserver_retries bodyAt k s = Some s')) \<and>
   (\<not> retry_guard s \<longrightarrow> startObserver_retries bodyAt k s = Some (s\<lparr>body := bodyAt k\<rparr>))"
  using retries_never_end [of s k bodyAt] retries_end_when_body_appears [of bodyAt k n s]
    retries_stop_unguarded [of s bodyAt k]
  by blast

theorem C9_retry_chain_witness:
  "retry_guard waiting_page \<and>
   startObserver_retries body_never 0 waiting_page = None \<and>
   body_from_third (0 + 2) \<noteq> None \<and>
   (\<exists>s'. startObserver_retries body_from_third 0 waiting_page = Some s') \<and>
   \<not> retry_guard (waiting_page\<lparr>isEnabled := False\<rparr>) \<and>
   startObserver_retries body_never 0 (waiting_page\<lparr>isEnabled := False\<rparr>) =
     Some (waiting_page\<lparr>isEnabled := False, body := body_never 0\<rparr>)"
proof -
  have a: "\<forall>j \<ge> 0. body_never j = None"
    by (simp add: body_never_def)
  have b: "body_from_third (0 + 2) \<noteq> None"
    by (simp add: body_from_third_def)
  have c: "\<not> retry_guard (waiting_page\<lparr>isEnabled := False\<rparr>)"
    by (simp add: retry_guard_def hostnameExcluded_body hostnameExcluded_pending)
  have never: "startObserver_retries body_never 0 waiting_page = None"
    using C9_retry_chain [of waiting_page 0 body_never 2] retry_guard_waiting_page a
    by (elim conjE) (rule mp, assumption, intro conjI)
  have third: "\<exists>s'. startObserver_retries body_from_third 0 waiting_page = Some s'"
    using C9_retry_chain [of waiting_page 0 body_from_third 2] b
    by (elim conjE) (rule mp, assumption)
  have off: "startObserver_retries body_never 0 (waiting_page\<lparr>isEnabled := False\<rparr>) =
     Some (waiting_page\<lparr>isEnabled := False, body := body_never 0\<rparr>)"
    using C9_retry_chain [of "waiting_page\<lparr>isEnabled := False\<rparr>" 0 body_never 2] c
    by (elim conjE) (rule mp, assumption)
  from retry_guard_waiting_page never b third c off show ?thesis
    by (intro conjI)
qed

section \<open>Settings retrieval and initialization\<close>

lemma retry_attempt_failed:
  "resp = Rejected \<or> resp = Malformed \<Longrightarrow>
   retry_attempt resp attempt maxRetries =
     (if attempt = maxRetries then Inr (Return None) else Inr Normal)"
  by (auto simp add: retry_attempt_def retry_try_def retry_catch_def)

lemma retry_attempt_never_throws: "retry_attempt resp attempt maxRetries \<noteq> Inl err"
  by (simp add: retry_attempt_def retry_try_def retry_catch_def split: response.split)

lemma getSettingsWithRetry_from_never_throws:
  "\<exists>v delays. getSettingsWithRetry_from sendMessage maxRetries initialDelay attempt =
     Inr (v, delays)"
proof (induction sendMessage maxRetries initialDelay attempt
    rule: getSettingsWithRetry_from.induct)
  case (1 sendMessage maxRetries initialDelay attempt)
  show ?case
  proof (cases "attempt \<le> maxRetries")
    case False
    then show ?thesis
      by (subst getSettingsWithRetry_from.simps) simp
  next
    case True
    show ?thesis
    proof (cases "retry_attempt (sendMessage attempt) attempt maxRetries")
      case (Inl e)
      then show ?thesis using retry_attempt_never_throws by blast
    next
      case (Inr c)
      show ?thesis
      proof (cases c)
        case Normal
        from 1 [OF True Inr Normal] obtain v delays where
          "getSettingsWithRetry_from sendMessage maxRetries initialDelay (attempt + 1) =
             Inr (v, delays)"
          by blast
        with True Inr Normal show ?thesis
          by (subst getSettingsWithRetry_from.simps) simp
      next
        case (Return v)
        with True Inr show ?thesis
          by (subst getSettingsWithRetry_from.simps) simp
      qed
    qed
  qed
qed

lemma getSettingsWithRetry_from_all_fail:
  assumes "\<forall>k. attempt \<le> k \<and> k \<le> maxRetries \<longrightarrow> sendMessage k = Rejected \<or> sendMessage k = Malformed"
    and "attempt \<le> maxRetries"
  shows "getSettingsWithRetry_from sendMessage maxRetries initialDelay attempt =
           Inr (None, map (\<lambda>a. initialDelay * 4 ^ (a - 1)) [attempt..<maxRetries])"
  using assms
proof (induction "maxRetries - attempt" arbitrary: attempt)
  case 0
  then have last: "attempt = maxRetries" by simp
  have "retry_attempt (sendMessage attempt) attempt maxRetries = Inr (Return None)"
    using "0.prems" last by (simp add: retry_attempt_failed)
  then show ?case
    using last by (subst getSettingsWithRetry_from.simps) simp
next
  case (Suc d)
  then have less: "attempt < maxRetries" by simp
  have "retry_attempt (sendMessage attempt) attempt maxRetries = Inr Normal"
    using Suc.prems less by (simp add: retry_attempt_failed)
  moreover have "getSettingsWithRetry_from sendMessage maxRetries initialDelay (attempt + 1) =
      Inr (None, map (\<lambda>a. initialDelay * 4 ^ (a - 1)) [attempt + 1..<maxRetries])"
    using Suc.hyps(2) Suc.prems less by (intro Suc.hyps(1)) auto
  ultimately show ?case
    using less by (subst getSettingsWithRetry_from.simps) (simp add: upt_conv_Cons)
qed

lemma stopObserver_fields:
  "\<not> observer (stopObserver s)" "\<not> observerActive s \<Longrightarrow> \<not> observerActive (stopObserver s)"
  "observer s \<Longrightarrow> \<not> observerActive (stopObserver s)"
  "\<not> secondScanTimer (stopObserver s)"
  "body (stopObserver s) = body s" "detached (stopObserver s) = detached s"
  "isEnabled (stopObserver s) = isEnabled s"
  by (simp_all add: stopObserver_def clearSecondScanTimer_def Let_def)

lemma runScan_disabled: "\<not> isEnabled s \<Longrightarrow> runScan s = s"
  by (simp add: runScan_def)

lemma handleMutations_disabled: "\<not> isEnabled s \<Longrightarrow> handleMutations ms s = s"
  by (simp add: handleMutations_def)

lemma initialize_never_throws: "\<exists>s'. initialize sendMessage s = Inr s'"
proof -
  obtain v delays where "getSettingsWithRetry sendMessage 5 200 = Inr (v, delays)"
    using getSettingsWithRetry_from_never_throws [of sendMessage 5 200 1]
    unfolding getSettingsWithRetry_def by blast
  then show ?thesis
    by (cases v) (auto simp add: initialize_def Let_def)
qed

text \<open>
  Claim C8. When each of the five attempts of the settings request is rejected or
  answered with a malformed value, \<open>getSettingsWithRetry\<close> waits 200, 800, 3200 and
  12800 ms between the attempts and returns null; \<open>initialize\<close> then ends without an
  error, with \<open>isEnabled\<close> false and no observer, and has not touched the document.
  In the state it leaves, a scan, a start of the observer and a batch of mutations do
  nothing. From the state in which the script loads, the page is unchanged as a whole:
  nothing was scanned or styled and no callback is pending. Whatever the background
  answers, \<open>initialize\<close> ends without an error.
\<close>

theorem C8_settings_failure:
  assumes "\<forall>k. 1 \<le> k \<and> k \<le> 5 \<longrightarrow> sendMessage k = Rejected \<or> sendMessage k = Malformed"
  shows "getSettingsWithRetry sendMessage 5 200 = Inr (None, [200, 800, 3200, 12800]) \<and>
         initialize sendMessage s = Inr (stopObserver (s\<lparr>isEnabled := False\<rparr>)) \<and>
         \<not> isEnabled (stopObserver (s\<lparr>isEnabled := False\<rparr>)) \<and>
         \<not> observer (stopObserver (s\<lparr>isEnabled := False\<rparr>)) \<and>
         (observer s \<or> \<not> observerActive s \<longrightarrow>
            \<not> observerActive (stopObserver (s\<lparr>isEnabled := False\<rparr>))) \<and>
         body (stopObserver (s\<lparr>isEnabled := False\<rparr>)) = body s \<and>
         detached (stopObserver (s\<lparr>isEnabled := False\<rparr>)) = detached s \<and>
         runScan (stopObserver (s\<lparr>isEnabled := False\<rparr>)) = stopObserver (s\<lparr>isEnabled := False\<rparr>) \<and>
         startObserver (stopObserver (s\<lparr>isEnabled := False\<rparr>)) =
           stopObserver (s\<lparr>isEnabled := False\<rparr>) \<and>
         handleMutations ms (stopObserver (s\<lparr>isEnabled := False\<rparr>)) =
           stopObserver (s\<lparr>isEnabled := False\<rparr>) \<and>
         initialize sendMessage (initial_page h b ds rs ot) = Inr (initial_page h b ds rs ot) \<and>
         runScan (initial_page h b ds rs ot) = initial_page h b ds rs ot \<and>
         pending (initial_page h b ds rs ot) = [] \<and>
         (\<exists>s'. initialize anyAnswers s = Inr s')"
proof -
  let ?s = "stopObserver (s\<lparr>isEnabled := False\<rparr>)"
  have "getSettingsWithRetry_from sendMessage 5 200 1 =
      Inr (None, map (\<lambda>a. 200 * 4 ^ (a - 1)) [1..<5])"
    using assms by (intro getSettingsWithRetry_from_all_fail) auto
  moreover have "map (\<lambda>a. 200 * 4 ^ (a - 1)) [1..<5] = [200, 800, 3200, 12800 :: nat]"
    by (simp add: upt_rec)
  ultimately have get: "getSettingsWithRetry sendMessage 5 200 = Inr (None, [200, 800, 3200, 12800])"
    by (simp add: getSettingsWithRetry_def)
  have init: "initialize sendMessage t = Inr (stopObserver (t\<lparr>isEnabled := False\<rparr>))" for t
    by (simp add: initialize_def get)
  have off: "\<not> isEnabled ?s"
    by (simp add: stopObserver_fields)
  have fields: "\<not> observer ?s" "body ?s = body s" "detached ?s = detached s"
    by (simp_all add: stopObserver_fields)
  have active: "observer s \<or> \<not> observerActive s \<longrightarrow> \<not> observerActive ?s"
    using stopObserver_fields(2,3) [of "s\<lparr>isEnabled := False\<rparr>"] by auto
  have noop: "runScan ?s = ?s" "startObserver ?s = ?s" "handleMutations ms ?s = ?s"
    using off by (simp_all add: runScan_disabled handleMutations_disabled startObserver_guard)
  have fresh: "initialize sendMessage (initial_page h b ds rs ot) = Inr (initial_page h b ds rs ot)"
    unfolding init by (simp add: initial_page_def stopObserver_def)
  have fresh': "runScan (initial_page h b ds rs ot) = initial_page h b ds rs ot"
    "pending (initial_page h b ds rs ot) = []"
    by (simp_all add: runScan_disabled initial_page_def)
  from get init [of s] off fields active noop fresh fresh' initialize_never_throws [of anyAnswers s]
  show ?thesis
    by blast
qed

theorem C8_settings_failure_witness:
  "getSettingsWithRetry failing_background 5 200 = Inr (None, [200, 800, 3200, 12800]) \<and>
   initialize failing_background
     (initial_page (Some ''fa.example'')
        (Some (Element (plain ''body'') [Element (plain ''p'') [Text salam]])) [] ''complete'' False) =
   Inr (initial_page (Some ''fa.example'')
        (Some (Element (plain ''body'') [Element (plain ''p'') [Text salam]])) [] ''complete'' False)"
proof -
  have "\<forall>k. 1 \<le> k \<and> k \<le> 5 \<longrightarrow> failing_background k = Rejected \<or> failing_background k = Malformed"
    by (simp add: failing_background_def)
  from C8_settings_failure [OF this] show ?thesis
    by blast
qed

section \<open>Update messages\<close>

lemma startObserver_settings:
  "isEnabled (startObserver s) = isEnabled s"
  "excludedSites (startObserver s) = excludedSites s"
  "currentHostname (startObserver s) = currentHostname s"
  by (simp_all add: startObserver_def split: option.split)

lemma stopObserver_settings:
  "isEnabled (stopObserver s) = isEnabled s"
  "excludedSites (stopObserver s) = excludedSites s"
  "currentHostname (stopObserver s) = currentHostname s"
  by (simp_all add: stopObserver_def clearSecondScanTimer_def Let_def)

lemma runScan_settings:
  "isEnabled (runScan s) = isEnabled s"
  "excludedSites (runScan s) = excludedSites s"
  "currentHostname (runScan s) = currentHostname s"
  by (simp_all add: runScan_def split: option.split)

lemma revertAllStyles_settings:
  "isEnabled (revertAllStyles s) = isEnabled s"
  "excludedSites (revertAllStyles s) = excludedSites s"
  "currentHostname (revertAllStyles s) = currentHostname s"
  by (simp_all add: revertAllStyles_def)

lemma shouldBeActive_settings:
  "isEnabled s' = isEnabled s \<Longrightarrow> excludedSites s' = excludedSites s \<Longrightarrow>
   currentHostname s' = currentHostname s \<Longrightarrow> shouldBeActive s' = shouldBeActive s"
  by (simp add: shouldBeActive_def cong: option.case_cong)

text \<open>The handler in one piece: the settings that result, then the reconciliation.\<close>

lemma onMessage_UpdateState:
  "onMessage (UpdateState pl) s =
     (let s2 = s\<lparr>isEnabled := (case payload_isEnabled pl of Some b \<Rightarrow> b | None \<Rightarrow> isEnabled s),
                  excludedSites := (case payload_excludedSites pl of
                                      Some xs \<Rightarrow> xs | None \<Rightarrow> excludedSites s)\<rparr>
      in if isEnabled s2 \<noteq> isEnabled s \<or> excludedSites s2 \<noteq> excludedSites s
         then (if shouldBeActive s2 \<and> \<not> observerActive s
               then startObserver (if body s \<noteq> None then runScan s2 else s2)
               else if \<not> shouldBeActive s2 \<and> observerActive s
               then revertAllStyles (stopObserver s2)
               else s2)
         else s)"
  by (cases "payload_isEnabled pl"; cases "payload_excludedSites pl")
     (auto simp add: onMessage_def Let_def)

lemma onMessage_settings:
  "isEnabled (onMessage (UpdateState pl) s) =
     (case payload_isEnabled pl of Some b \<Rightarrow> b | None \<Rightarrow> isEnabled s)"
  "excludedSites (onMessage (UpdateState pl) s) =
     (case payload_excludedSites pl of Some xs \<Rightarrow> xs | None \<Rightarrow> excludedSites s)"
  "currentHostname (onMessage (UpdateState pl) s) = currentHostname s"
  by (auto simp add: onMessage_UpdateState Let_def startObserver_settings stopObserver_settings
      runScan_settings revertAllStyles_settings split: option.split)

lemma onMessage_cases:
  fixes pl s
  defines "s' \<equiv> onMessage (UpdateState pl) s"
  defines "s2 \<equiv> s\<lparr>isEnabled := isEnabled s', excludedSites := excludedSites s'\<rparr>"
  shows "s' = (if isEnabled s' \<noteq> isEnabled s \<or> excludedSites s' \<noteq> excludedSites s
               then (if shouldBeActive s2 \<and> \<not> observerActive s
                     then startObserver (if body s \<noteq> None then runScan s2 else s2)
                     else if \<not> shouldBeActive s2 \<and> observerActive s
                     then revertAllStyles (stopObserver s2)
                     else s2)
               else s)"
proof -
  have s2: "s2 = s\<lparr>isEnabled := (case payload_isEnabled pl of Some b \<Rightarrow> b | None \<Rightarrow> isEnabled s),
                  excludedSites := (case payload_excludedSites pl of
                                      Some xs \<Rightarrow> xs | None \<Rightarrow> excludedSites s)\<rparr>"
    unfolding s2_def s'_def by (simp add: onMessage_settings)
  show ?thesis
    unfolding s2 unfolding s'_def onMessage_settings
    by (simp add: onMessage_UpdateState Let_def)
qed

text \<open>
  What the handler does when the page is to be active under the settings that result:
  with the observer running it stores the settings and does nothing else; with the
  observer not running, after a change of the settings, it scans the body, if there is
  one, and starts the observer.
\<close>

lemma onMessage_UpdateState_active:
  "(observerActive s \<and> shouldBeActive (onMessage (UpdateState pl) s) \<longrightarrow>
      onMessage (UpdateState pl) s =
        s\<lparr>isEnabled := isEnabled (onMessage (UpdateState pl) s),
          excludedSites := excludedSites (onMessage (UpdateState pl) s)\<rparr>) \<and>
   (\<not> observerActive s \<and> shouldBeActive (onMessage (UpdateState pl) s) \<and>
    (isEnabled (onMessage (UpdateState pl) s) \<noteq> isEnabled s \<or>
     excludedSites (onMessage (UpdateState pl) s) \<noteq> excludedSites s) \<longrightarrow>
      onMessage (UpdateState pl) s =
        startObserver
          (if body s \<noteq> None
           then runScan (s\<lparr>isEnabled := isEnabled (onMessage (UpdateState pl) s),
                           excludedSites := excludedSites (onMessage (UpdateState pl) s)\<rparr>)
           else s\<lparr>isEnabled := isEnabled (onMessage (UpdateState pl) s),
                  excludedSites := excludedSites (onMessage (UpdateState pl) s)\<rparr>))"
proof -
  let ?s' = "onMessage (UpdateState pl) s"
  let ?s2 = "s\<lparr>isEnabled := isEnabled ?s', excludedSites := excludedSites ?s'\<rparr>"
  have act: "shouldBeActive ?s2 = shouldBeActive ?s'"
    by (rule shouldBeActive_settings) (simp_all add: onMessage_settings)
  have same: "?s2 = s" if "\<not> (isEnabled ?s' \<noteq> isEnabled s \<or> excludedSites ?s' \<noteq> excludedSites s)"
    using that by simp
  have 1: "?s' = ?s2" if "observerActive s" "shouldBeActive ?s'"
    using onMessage_cases [of pl s] that act same by (simp split: if_splits)
  have 2: "?s' = startObserver (if body s \<noteq> None then runScan ?s2 else ?s2)"
    if "\<not> observerActive s" "shouldBeActive ?s'"
      "isEnabled ?s' \<noteq> isEnabled s \<or> excludedSites ?s' \<noteq> excludedSites s"
    using onMessage_cases [of pl s] that act by (simp split: if_splits)
  from 1 2 show ?thesis by blast
qed

subsection \<open>The observer runs on active pages only\<close>

text \<open>
  A page that is to be active has a hostname that is not on the exclusion list, and so
  has every page on which the observer runs, after any sequence of operations: no
  update can take the hostname off the list of such a page.
\<close>

lemma shouldBeActive_not_excluded:
  "shouldBeActive s \<Longrightarrow>
   isEnabled s \<and> \<not> hostnameExcluded s \<and>
   (\<exists>h. currentHostname s = Some h \<and> h \<noteq> [] \<and> h \<notin> set (excludedSites s))"
  by (cases "currentHostname s") (simp_all add: shouldBeActive_def hostnameExcluded_def)

lemma hostnameExcluded_settings:
  "excludedSites s' = excludedSites s \<Longrightarrow> currentHostname s' = currentHostname s \<Longrightarrow>
   hostnameExcluded s' = hostnameExcluded s"
  by (simp add: hostnameExcluded_def cong: option.case_cong)

lemma observer_inv_same_control:
  assumes "isEnabled s' = isEnabled s" and "excludedSites s' = excludedSites s"
    and "currentHostname s' = currentHostname s" and "observer s' = observer s"
    and "observerActive s' = observerActive s"
  shows "observer_inv s' = observer_inv s"
  using assms hostnameExcluded_settings [OF assms(2,3)] by (simp add: observer_inv_def)

lemma observer_inv_modify: "observer_inv (modify r f s) = observer_inv s"
  by (rule observer_inv_same_control) (simp_all add: modify_def split: noderef.split)

lemma observer_inv_runScan: "observer_inv (runScan s) = observer_inv s"
  by (rule observer_inv_same_control) (simp_all add: runScan_def split: option.split)

lemma observer_inv_revertAllStyles: "observer_inv (revertAllStyles s) = observer_inv s"
  by (rule observer_inv_same_control) (simp_all add: revertAllStyles_def)

lemma observer_inv_addTask: "observer_inv (addTask k s) = observer_inv s"
  by (rule observer_inv_same_control) (simp_all add: addTask_def)

lemma observer_inv_checkAndFixNode_ref: "observer_inv (checkAndFixNode_ref r s) = observer_inv s"
  by (simp add: checkAndFixNode_ref_def observer_inv_modify split: option.split node.split)

lemma observer_inv_fold:
  assumes "\<And>x s. observer_inv (f x s) = observer_inv s"
  shows "observer_inv (fold f xs s) = observer_inv s"
  by (induction xs arbitrary: s) (simp_all add: assms)

lemma observer_inv_handleMutations_each: "observer_inv (handleMutations_each m s) = observer_inv s"
  by (cases m)
     (simp_all add: observer_inv_fold observer_inv_checkAndFixNode_ref observer_inv_modify
        split: option.split)

lemma observer_inv_handleMutations: "observer_inv (handleMutations ms s) = observer_inv s"
  by (simp add: handleMutations_def observer_inv_fold observer_inv_handleMutations_each)

lemma observer_inv_startObserver: "observer_inv s \<Longrightarrow> observer_inv (startObserver s)"
  by (cases "body s")
     (auto simp add: startObserver_def observer_inv_def
        hostnameExcluded_settings [of "s\<lparr>pending := ts\<rparr>" s for ts]
        hostnameExcluded_settings [of "s\<lparr>observer := a, observerActive := b\<rparr>" s for a b])

lemma observer_inv_stopObserver:
  "observer s \<or> \<not> observerActive s \<Longrightarrow> observer_inv (stopObserver s)"
  by (auto simp add: stopObserver_def clearSecondScanTimer_def Let_def observer_inv_def)

lemma observer_inv_stop_after_settings:
  assumes "observer_inv s"
  shows "observer_inv (stopObserver (s\<lparr>isEnabled := en, excludedSites := ex\<rparr>))"
    and "observer_inv (stopObserver (s\<lparr>isEnabled := en\<rparr>))"
    and "observer_inv (stopObserver s)"
proof -
  from assms have "observer s \<or> \<not> observerActive s"
    by (auto simp add: observer_inv_def)
  then show "observer_inv (stopObserver (s\<lparr>isEnabled := en, excludedSites := ex\<rparr>))"
    and "observer_inv (stopObserver (s\<lparr>isEnabled := en\<rparr>))"
    and "observer_inv (stopObserver s)"
    by (simp_all add: observer_inv_stopObserver)
qed

lemma observer_inv_active_settings:
  assumes "observer_inv s" and "shouldBeActive s'" and "observer s' = observer s"
    and "observerActive s' = observerActive s"
  shows "observer_inv s'"
  using assms shouldBeActive_not_excluded [OF assms(2)] by (simp add: observer_inv_def)

lemma observer_inv_run_callback: "observer_inv s \<Longrightarrow> observer_inv (run_callback cb s)"
proof (cases cb)
  case StartObserverCB
  assume "observer_inv s"
  with StartObserverCB show ?thesis by (simp add: observer_inv_startObserver)
next
  case RunInitialScanCB
  assume "observer_inv s"
  with RunInitialScanCB show ?thesis by (simp add: observer_inv_addTask)
next
  case InitialScanCB
  assume "observer_inv s"
  with InitialScanCB show ?thesis by (simp add: observer_inv_runScan)
next
  case SecondScanCB
  assume inv: "observer_inv s"
  let ?s = "if shouldBeActive s \<and> body s \<noteq> None then runScan s else s"
  have "observer_inv ?s"
    using inv by (simp add: observer_inv_runScan)
  moreover have "observer_inv (?s\<lparr>secondScanTimer := False\<rparr>) = observer_inv ?s"
    by (rule observer_inv_same_control) simp_all
  ultimately show ?thesis
    using SecondScanCB by simp
qed

lemma observer_inv_onMessage: "observer_inv s \<Longrightarrow> observer_inv (onMessage m s)"
proof (cases m)
  case OtherMessage
  assume "observer_inv s"
  with OtherMessage show ?thesis by (simp add: onMessage_def)
next
  case (UpdateState pl)
  assume inv: "observer_inv s"
  let ?s2 = "s\<lparr>isEnabled := (case payload_isEnabled pl of Some b \<Rightarrow> b | None \<Rightarrow> isEnabled s),
               excludedSites := (case payload_excludedSites pl of
                                   Some xs \<Rightarrow> xs | None \<Rightarrow> excludedSites s)\<rparr>"
  have start: "observer_inv (startObserver (if body s \<noteq> None then runScan ?s2 else ?s2))"
    if "\<not> observerActive s"
  proof -
    from that have "observer_inv ?s2" by (simp add: observer_inv_def)
    then show ?thesis
      by (intro observer_inv_startObserver) (simp add: observer_inv_runScan)
  qed
  have stop: "observer_inv (revertAllStyles (stopObserver ?s2))"
    using inv by (simp add: observer_inv_revertAllStyles observer_inv_stop_after_settings)
  have keep: "observer_inv ?s2" if "shouldBeActive ?s2 \<or> \<not> observerActive s"
  proof (cases "shouldBeActive ?s2")
    case True
    with inv show ?thesis by (rule observer_inv_active_settings) simp_all
  next
    case False
    with that show ?thesis by (simp add: observer_inv_def)
  qed
  from inv start stop keep show ?thesis
    unfolding UpdateState onMessage_UpdateState Let_def by auto
qed

lemma observer_inv_initialize:
  assumes "initialize sendMessage s = Inr s'" and "observer_inv s"
  shows "observer_inv s'"
proof (cases "getSettingsWithRetry sendMessage 5 200")
  case (Inl err)
  with assms(1) show ?thesis by (simp add: initialize_def)
next
  case (Inr r)
  obtain v delays where r: "r = (v, delays)" by (cases r)
  show ?thesis
  proof (cases v)
    case None
    with assms Inr r show ?thesis
      by (auto simp add: initialize_def observer_inv_stop_after_settings)
  next
    case (Some st)
    obtain en ex where st: "st = (en, ex)" by (cases st)
    let ?s1 = "s\<lparr>isEnabled := en, excludedSites := ex\<rparr>"
    show ?thesis
    proof (cases "shouldBeActive ?s1")
      case False
      with assms Inr r Some st show ?thesis
        by (auto simp add: initialize_def observer_inv_stop_after_settings)
    next
      case True
      have inv1: "observer_inv ?s1"
        using assms(2) True by (rule observer_inv_active_settings) simp_all
      have task: "observer_inv (addTask k t) = observer_inv t" for k t
        by (rule observer_inv_addTask)
      have clear: "observer_inv (clearSecondScanTimer t) = observer_inv t" for t
        by (rule observer_inv_same_control) (simp_all add: clearSecondScanTimer_def)
      have timer: "observer_inv (t\<lparr>secondScanTimer := True\<rparr>) = observer_inv t" for t
        by (rule observer_inv_same_control) simp_all
      from assms(1) Inr r Some st True inv1 show ?thesis
        by (auto simp add: initialize_def Let_def task clear timer
            intro!: observer_inv_startObserver split: if_splits)
    qed
  qed
qed

lemma observer_inv_core_op: "core_op s s' \<Longrightarrow> observer_inv s \<Longrightarrow> observer_inv s'"
proof (induction rule: core_op.induct)
  case (op_runScan s)
  then show ?case by (simp add: observer_inv_runScan)
next
  case (op_checkAndFixNode s r)
  then show ?case by (simp add: observer_inv_checkAndFixNode_ref)
next
  case (op_handleMutations s ms)
  then show ?case by (simp add: observer_inv_handleMutations)
next
  case (op_revertAllStyles s)
  then show ?case by (simp add: observer_inv_revertAllStyles)
next
  case (op_startObserver s)
  then show ?case by (rule observer_inv_startObserver)
next
  case (op_stopObserver s)
  then show ?case by (rule observer_inv_stop_after_settings)
next
  case (op_callback s cb)
  then show ?case by (rule observer_inv_run_callback)
next
  case (op_onMessage s m)
  then show ?case by (rule observer_inv_onMessage)
next
  case (op_initialize sendMessage s s')
  then show ?case by (rule observer_inv_initialize)
qed

lemma observer_inv_initial_page: "observer_inv (initial_page h b ds rs ot)"
  by (simp add: observer_inv_def initial_page_def)

lemma observer_running_not_excluded:
  assumes "core_op\<^sup>*\<^sup>* (initial_page h0 b ds rs ot) s" and "observerActive s"
    and "currentHostname s = Some h" and "h \<noteq> []"
  shows "h \<notin> set (excludedSites s)"
proof -
  from assms(1) have "observer_inv s"
    by (induction rule: rtranclp_induct) (simp_all add: observer_inv_initial_page observer_inv_core_op)
  with assms(2,3,4) show ?thesis
    by (simp add: observer_inv_def hostnameExcluded_def)
qed

section \<open>Text changes\<close>








section \<open>At most one marker\<close>

lemma isPotentialCandidate_styledAttr:
  "styledAttr (snd (isPotentialCandidate c e cs)) = styledAttr e"
  unfolding isPotentialCandidate_def Let_def
  by (simp split: option.split del: textContent.simps)

lemma elem_inv_isPotentialCandidate:
  "elem_inv e \<Longrightarrow> elem_inv (snd (isPotentialCandidate c e cs))"
proof (cases "styledAttr e")
  case None
  then have "styledAttr (snd (isPotentialCandidate c e cs)) = None"
    by (simp add: isPotentialCandidate_styledAttr)
  then show ?thesis by (simp add: elem_inv_def)
next
  case (Some v)
  then have "hasAttribute RTL_STYLE_ATTR e" by simp
  then have "isPotentialCandidate c e cs = (False, e)"
    by (rule isPotentialCandidate_marked [OF disjI2])
  moreover assume "elem_inv e"
  ultimately show ?thesis by simp
qed

lemma elem_inv_applyRtlStyle: "elem_inv (applyRtlStyle e)"
  by (simp add: elem_inv_def applyRtlStyle_def)

lemma elem_inv_revertAllStyles_each: "elem_inv (revertAllStyles_each e)"
  by (simp add: elem_inv_def revertAllStyles_each_def)

lemma elem_inv_removeAttribute: "elem_inv e \<Longrightarrow> elem_inv (removeAttribute a e)"
  by (cases a) (simp_all add: elem_inv_def)

lemma elem_inv_generic_marker:
  "\<not> hasAttribute RTL_STYLE_ATTR e \<Longrightarrow> elem_inv (setAttribute PROCESSED_ATTR v e)"
  by (simp add: elem_inv_def)

lemma elem_inv_checkAndFix_self: "elem_inv e \<Longrightarrow> elem_inv (checkAndFix_self c e cs)"
  using elem_inv_isPotentialCandidate [of e c cs]
  by (cases "isPotentialCandidate c e cs")
     (simp add: checkAndFix_self_def elem_inv_applyRtlStyle elem_inv_generic_marker
        del: hasAttribute.simps setAttribute.simps)

lemma elem_inv_runScan_each: "elem_inv e \<Longrightarrow> elem_inv (runScan_each e cs)"
  using elem_inv_isPotentialCandidate [of e True cs]
  by (cases "isPotentialCandidate True e cs")
     (simp add: runScan_each_def elem_inv_applyRtlStyle elem_inv_generic_marker
        del: hasAttribute.simps setAttribute.simps)

lemma node_inv_checkAndFixNode: "node_inv n \<Longrightarrow> node_inv (checkAndFixNode c n)"
  by (induction n) (auto simp add: list_all_iff elem_inv_checkAndFix_self)

lemma node_inv_runScan_subtree: "node_inv n \<Longrightarrow> node_inv (runScan_subtree n)"
  by (induction n) (simp_all add: list_all_iff elem_inv_runScan_each)

lemma node_inv_runScan_container: "node_inv n \<Longrightarrow> node_inv (runScan_container n)"
  by (cases n) (simp_all add: list_all_iff node_inv_runScan_subtree)

lemma node_inv_revertAllStyles_subtree: "node_inv n \<Longrightarrow> node_inv (revertAllStyles_subtree n)"
  by (induction n) (simp_all add: list_all_iff elem_inv_revertAllStyles_each)

lemma node_inv_removeAttribute_node: "node_inv n \<Longrightarrow> node_inv (removeAttribute_node a n)"
  by (cases n) (simp_all add: elem_inv_removeAttribute del: removeAttribute.simps)

lemma list_all_update:
  "list_all P xs \<Longrightarrow> P x \<Longrightarrow> list_all P (xs[i := x])"
  by (auto simp add: list_all_iff dest: set_update_subset_insert [THEN subsetD])

lemma node_inv_update_at:
  assumes "\<And>m. node_inv m \<Longrightarrow> node_inv (f m)"
  shows "node_inv n \<Longrightarrow> node_inv (update_at p f n)"
proof (induction p arbitrary: n)
  case Nil
  then show ?case by (simp add: assms)
next
  case (Cons i p)
  show ?case
  proof (cases n)
    case (Element e cs)
    show ?thesis
    proof (cases "i < length cs")
      case True
      with Cons.prems Element have "node_inv (cs ! i)"
        by (simp add: list_all_length)
      then have "node_inv (update_at p f (cs ! i))"
        by (rule Cons.IH)
      with Cons.prems Element True show ?thesis
        by (simp add: list_all_update)
    next
      case False
      with Cons.prems Element show ?thesis by simp
    qed
  next
    case (Text t)
    then show ?thesis by simp
  next
    case (Comment t)
    then show ?thesis by simp
  qed
qed

lemma page_inv_same_document:
  "body s' = body s \<Longrightarrow> detached s' = detached s \<Longrightarrow> page_inv s' = page_inv s"
  by (simp add: page_inv_def)

lemma page_inv_modify:
  assumes "\<And>c m. node_inv m \<Longrightarrow> node_inv (f c m)" and "page_inv s"
  shows "page_inv (modify r f s)"
proof (cases r)
  case NullRef
  with assms(2) show ?thesis by (simp add: modify_def)
next
  case (InBody p)
  have "node_inv m \<Longrightarrow> node_inv (f True m)" for m
    by (rule assms(1))
  from node_inv_update_at [of "f True", OF this] assms(2) InBody show ?thesis
    by (cases "body s") (simp_all add: modify_def page_inv_def)
next
  case (InDetached i p)
  show ?thesis
  proof (cases "i < length (detached s)")
    case True
    with assms(2) have "node_inv (detached s ! i)"
      by (simp add: page_inv_def list_all_length)
    moreover have "node_inv m \<Longrightarrow> node_inv (f False m)" for m
      by (rule assms(1))
    ultimately have "node_inv (update_at p (f False) (detached s ! i))"
      using node_inv_update_at [of "f False" "detached s ! i" p] by blast
    with assms(2) InDetached True show ?thesis
      by (simp add: modify_def page_inv_def list_all_update)
  next
    case False
    with assms(2) InDetached show ?thesis by (simp add: modify_def)
  qed
qed

lemma node_inv_walk_text_parent:
  "node_inv m \<Longrightarrow> node_inv (checkAndFixNode c (removeAttribute_node PROCESSED_ATTR m))"
  by (intro node_inv_checkAndFixNode node_inv_removeAttribute_node)

lemma page_inv_checkAndFixNode_ref: "page_inv s \<Longrightarrow> page_inv (checkAndFixNode_ref r s)"
  by (simp add: checkAndFixNode_ref_def page_inv_modify node_inv_checkAndFixNode
      node_inv_walk_text_parent split: option.split node.split)

lemma page_inv_fold:
  assumes "\<And>x s. page_inv s \<Longrightarrow> page_inv (f x s)"
  shows "page_inv s \<Longrightarrow> page_inv (fold f xs s)"
  by (induction xs arbitrary: s) (simp_all add: assms)

lemma page_inv_handleMutations_each: "page_inv s \<Longrightarrow> page_inv (handleMutations_each m s)"
  by (cases m)
     (simp_all add: page_inv_fold page_inv_checkAndFixNode_ref page_inv_modify
        node_inv_walk_text_parent split: option.split)

lemma page_inv_handleMutations: "page_inv s \<Longrightarrow> page_inv (handleMutations ms s)"
  by (simp add: handleMutations_def page_inv_fold page_inv_handleMutations_each)

lemma page_inv_runScan: "page_inv s \<Longrightarrow> page_inv (runScan s)"
  by (auto simp add: runScan_def page_inv_def node_inv_runScan_container split: option.split)

lemma page_inv_revertAllStyles: "page_inv s \<Longrightarrow> page_inv (revertAllStyles s)"
  by (cases "body s")
     (simp_all add: revertAllStyles_def page_inv_def node_inv_revertAllStyles_subtree)

lemma startObserver_document:
  "body (startObserver s) = body s" "detached (startObserver s) = detached s"
  by (simp_all add: startObserver_def split: option.split)

lemma stopObserver_document:
  "body (stopObserver s) = body s" "detached (stopObserver s) = detached s"
  by (simp_all add: stopObserver_def clearSecondScanTimer_def Let_def)

lemma page_inv_startObserver: "page_inv (startObserver s) = page_inv s"
  by (rule page_inv_same_document) (simp_all add: startObserver_document)

lemma page_inv_stopObserver: "page_inv (stopObserver s) = page_inv s"
  by (rule page_inv_same_document) (simp_all add: stopObserver_document)

lemma page_inv_settings:
  "page_inv (s\<lparr>isEnabled := en, excludedSites := ex\<rparr>) = page_inv s"
  "page_inv (s\<lparr>isEnabled := en\<rparr>) = page_inv s"
  "page_inv (s\<lparr>secondScanTimer := t\<rparr>) = page_inv s"
  "page_inv (addTask k s) = page_inv s"
  "page_inv (clearSecondScanTimer s) = page_inv s"
  by (simp_all add: page_inv_def addTask_def clearSecondScanTimer_def)

lemma page_inv_run_callback: "page_inv s \<Longrightarrow> page_inv (run_callback cb s)"
  by (cases cb) (simp_all add: page_inv_startObserver page_inv_settings page_inv_runScan)

lemma page_inv_onMessage: "page_inv s \<Longrightarrow> page_inv (onMessage m s)"
proof (cases m)
  case OtherMessage
  assume "page_inv s"
  with OtherMessage show ?thesis by (simp add: onMessage_def)
next
  case (UpdateState pl)
  assume "page_inv s"
  then show ?thesis
    unfolding UpdateState onMessage_UpdateState Let_def
    by (simp add: page_inv_startObserver page_inv_stopObserver page_inv_settings
        page_inv_runScan page_inv_revertAllStyles)
qed

lemma page_inv_initialize:
  assumes "initialize sendMessage s = Inr s'" and "page_inv s"
  shows "page_inv s'"
proof (cases "getSettingsWithRetry sendMessage 5 200")
  case (Inl err)
  with assms(1) show ?thesis by (simp add: initialize_def)
next
  case (Inr r)
  obtain v delays where r: "r = (v, delays)" by (cases r)
  show ?thesis
  proof (cases v)
    case None
    with assms Inr r show ?thesis
      by (auto simp add: initialize_def page_inv_stopObserver page_inv_settings)
  next
    case (Some st)
    obtain en ex where st: "st = (en, ex)" by (cases st)
    from assms Inr r Some st show ?thesis
      by (auto simp add: initialize_def Let_def page_inv_startObserver page_inv_stopObserver
          page_inv_settings split: if_splits)
  qed
qed

lemma page_inv_core_op: "core_op s s' \<Longrightarrow> page_inv s \<Longrightarrow> page_inv s'"
proof (induction rule: core_op.induct)
  case (op_runScan s)
  then show ?case by (rule page_inv_runScan)
next
  case (op_checkAndFixNode s r)
  then show ?case by (rule page_inv_checkAndFixNode_ref)
next
  case (op_handleMutations s ms)
  then show ?case by (rule page_inv_handleMutations)
next
  case (op_revertAllStyles s)
  then show ?case by (rule page_inv_revertAllStyles)
next
  case (op_startObserver s)
  then show ?case by (simp add: page_inv_startObserver)
next
  case (op_stopObserver s)
  then show ?case by (simp add: page_inv_stopObserver)
next
  case (op_callback s cb)
  then show ?case by (rule page_inv_run_callback)
next
  case (op_onMessage s m)
  then show ?case by (rule page_inv_onMessage)
next
  case (op_initialize sendMessage s s')
  then show ?case by (rule page_inv_initialize)
qed

lemma page_inv_core_ops: "core_op\<^sup>*\<^sup>* s s' \<Longrightarrow> page_inv s \<Longrightarrow> page_inv s'"
  by (induction rule: rtranclp_induct) (simp_all add: page_inv_core_op)

text \<open>
  Claim C4. An element never carries the styled marker together with a processed
  marker (\<open>no-rtl\<close>, \<open>already-rtl\<close>, \<open>hidden\<close>, \<open>style-error\<close>, \<open>checked-subtree\<close>,
  \<open>scan-checked\<close>): the candidate filter, the fix path of the walker and of the scanner
  keep this for one element, \<open>applyRtlStyle\<close> and the revert establish it, and on a
  page where it holds for every element of the document and of the detached trees it
  holds again after any sequence of scans, walks, mutation batches, reverts, observer
  starts and stops, timer callbacks, update messages and initializations.
\<close>

theorem C4_marker_exclusive:
  "(elem_inv e \<longrightarrow>
      elem_inv (snd (isPotentialCandidate c e cs)) \<and>
      elem_inv (checkAndFix_self c e cs) \<and>
      elem_inv (runScan_each e cs)) \<and>
   elem_inv (applyRtlStyle e) \<and>
   elem_inv (revertAllStyles_each e) \<and>
   (page_inv s \<and> core_op\<^sup>*\<^sup>* s s' \<longrightarrow> page_inv s')"
  using elem_inv_isPotentialCandidate [of e c cs] elem_inv_checkAndFix_self [of e c cs]
    elem_inv_runScan_each [of e cs] elem_inv_applyRtlStyle [of e]
    elem_inv_revertAllStyles_each [of e] page_inv_core_ops [of s s']
  by blast

theorem C4_marker_exclusive_witness:
  "elem_inv (plain ''p'') \<and>
   elem_inv (snd (isPotentialCandidate True (plain ''p'') [Text hello])) \<and>
   page_inv (active_page (plain ''p'') [Text salam]) \<and>
   page_inv (revertAllStyles
     (handleMutations [CharacterData (InBody [0, 0])]
        (runScan (active_page (plain ''p'') [Text salam]))))"
proof -
  let ?A = "active_page (plain ''p'') [Text salam]"
  let ?B = "runScan ?A"
  let ?C = "handleMutations [CharacterData (InBody [0, 0])] ?B"
  let ?D = "revertAllStyles ?C"
  have e: "elem_inv (plain ''p'')"
    by (simp add: elem_inv_def plain_def)
  have p: "page_inv ?A"
    by (simp add: page_inv_def active_page_def elem_inv_def plain_def)
  have "core_op ?A ?B" "core_op ?B ?C" "core_op ?C ?D"
    by (rule core_op.intros)+
  then have steps: "core_op\<^sup>*\<^sup>* ?A ?D"
    by (meson rtranclp.rtrancl_into_rtrancl rtranclp.rtrancl_refl)
  from C4_marker_exclusive [of "plain ''p''" True "[Text hello]" ?A ?D] e p steps
  show ?thesis by blast
qed

section \<open>What changes an element\<close>

lemma isPotentialCandidate_cases:
  "(isPotentialCandidate c e cs = (True, e) \<and>
      \<not> hasAttribute PROCESSED_ATTR e \<and> \<not> hasAttribute RTL_STYLE_ATTR e) \<or>
   isPotentialCandidate c e cs = (False, e) \<or>
   (\<not> hasAttribute PROCESSED_ATTR e \<and> \<not> hasAttribute RTL_STYLE_ATTR e \<and>
    (isPotentialCandidate c e cs = (False, setAttribute PROCESSED_ATTR ''hidden'' e) \<or>
     isPotentialCandidate c e cs = (False, setAttribute PROCESSED_ATTR ''no-rtl'' e) \<or>
     isPotentialCandidate c e cs = (False, setAttribute PROCESSED_ATTR ''already-rtl'' e) \<or>
     isPotentialCandidate c e cs = (False, setAttribute PROCESSED_ATTR ''style-error'' e)))"
  unfolding isPotentialCandidate_def Let_def
  by (simp split: option.split
      del: textContent.simps setAttribute.simps hasAttribute.simps)

lemma elem_steps_filter_marker:
  "\<not> hasAttribute PROCESSED_ATTR e \<Longrightarrow> \<not> hasAttribute RTL_STYLE_ATTR e \<Longrightarrow>
   v \<in> {''hidden'', ''no-rtl'', ''already-rtl'', ''style-error''} \<Longrightarrow>
   elem_step\<^sup>*\<^sup>* e (setAttribute PROCESSED_ATTR v e)"
  by (rule r_into_rtranclp) (rule by_filter)

lemma elem_steps_isPotentialCandidate:
  "elem_step\<^sup>*\<^sup>* e (snd (isPotentialCandidate c e cs))"
  using isPotentialCandidate_cases [of c e cs]
  by (elim disjE conjE) (simp_all add: elem_steps_filter_marker del: setAttribute.simps hasAttribute.simps)

lemma elem_steps_fix_path:
  assumes "v \<in> {''checked-subtree'', ''scan-checked''}"
  shows "elem_step\<^sup>*\<^sup>* e
     (let (ok, e1) = isPotentialCandidate c e cs in
      if ok then applyRtlStyle e1
      else if \<not> hasAttribute PROCESSED_ATTR e1 \<and> \<not> hasAttribute RTL_STYLE_ATTR e1
        then setAttribute PROCESSED_ATTR v e1
      else e1)"
proof -
  have marked: "hasAttribute PROCESSED_ATTR (setAttribute PROCESSED_ATTR w e)" for w
    by simp
  have checked: "elem_step\<^sup>*\<^sup>* e (setAttribute PROCESSED_ATTR v e)"
    if "\<not> hasAttribute PROCESSED_ATTR e" "\<not> hasAttribute RTL_STYLE_ATTR e"
    using that assms by (intro r_into_rtranclp by_checked)
  have styled: "elem_step\<^sup>*\<^sup>* e (applyRtlStyle e)"
    if "\<not> hasAttribute PROCESSED_ATTR e" "\<not> hasAttribute RTL_STYLE_ATTR e"
    using that by (intro r_into_rtranclp by_applyRtlStyle)
  from isPotentialCandidate_cases [of c e cs] show ?thesis
  proof (elim disjE conjE)
    assume "isPotentialCandidate c e cs = (True, e)"
      "\<not> hasAttribute PROCESSED_ATTR e" "\<not> hasAttribute RTL_STYLE_ATTR e"
    then show ?thesis using styled by simp
  next
    assume "isPotentialCandidate c e cs = (False, e)"
    then show ?thesis using checked by (simp del: setAttribute.simps hasAttribute.simps)
  next
    assume "\<not> hasAttribute PROCESSED_ATTR e" "\<not> hasAttribute RTL_STYLE_ATTR e"
      "isPotentialCandidate c e cs = (False, setAttribute PROCESSED_ATTR ''hidden'' e)"
    then show ?thesis
      using marked [of "''hidden''"] elem_steps_filter_marker [of e "''hidden''"]
      by (simp del: setAttribute.simps hasAttribute.simps)
  next
    assume "\<not> hasAttribute PROCESSED_ATTR e" "\<not> hasAttribute RTL_STYLE_ATTR e"
      "isPotentialCandidate c e cs = (False, setAttribute PROCESSED_ATTR ''no-rtl'' e)"
    then show ?thesis
      using marked [of "''no-rtl''"] elem_steps_filter_marker [of e "''no-rtl''"]
      by (simp del: setAttribute.simps hasAttribute.simps)
  next
    assume "\<not> hasAttribute PROCESSED_ATTR e" "\<not> hasAttribute RTL_STYLE_ATTR e"
      "isPotentialCandidate c e cs = (False, setAttribute PROCESSED_ATTR ''already-rtl'' e)"
    then show ?thesis
      using marked [of "''already-rtl''"] elem_steps_filter_marker [of e "''already-rtl''"]
      by (simp del: setAttribute.simps hasAttribute.simps)
  next
    assume "\<not> hasAttribute PROCESSED_ATTR e" "\<not> hasAttribute RTL_STYLE_ATTR e"
      "isPotentialCandidate c e cs = (False, setAttribute PROCESSED_ATTR ''style-error'' e)"
    then show ?thesis
      using marked [of "''style-error''"] elem_steps_filter_marker [of e "''style-error''"]
      by (simp del: setAttribute.simps hasAttribute.simps)
  qed
qed

lemma elem_steps_checkAndFix_self: "elem_step\<^sup>*\<^sup>* e (checkAndFix_self c e cs)"
  unfolding checkAndFix_self_def by (rule elem_steps_fix_path) simp

lemma elem_steps_runScan_each: "elem_step\<^sup>*\<^sup>* e (runScan_each e cs)"
  unfolding runScan_each_def by (rule elem_steps_fix_path) simp

lemma node_steps_refl: "node_steps n n"
  by (induction n) (auto intro!: node_steps.intros simp add: list_all2_same)

lemma node_steps_Element_map:
  assumes "elem_step\<^sup>*\<^sup>* e e'" and "\<And>x. x \<in> set cs \<Longrightarrow> node_steps x (f x)"
  shows "node_steps (Element e cs) (Element e' (map f cs))"
  using assms by (intro steps_Element) (simp_all add: list_all2_map2 list_all2_same)

lemma node_steps_checkAndFixNode: "node_steps n (checkAndFixNode c n)"
proof (induction n)
  case (Element e cs)
  show ?case
  proof (cases "matches_SKIP_SELECTORS e \<or> \<not> c")
    case True
    then show ?thesis by (simp add: node_steps_refl)
  next
    case False
    then show ?thesis
      using node_steps_Element_map [of e "checkAndFix_self c e cs" cs "checkAndFixNode c"]
        elem_steps_checkAndFix_self [of e c cs] Element.IH
      by simp
  qed
qed (simp_all add: node_steps.intros)

lemma node_steps_runScan_subtree: "node_steps n (runScan_subtree n)"
proof (induction n)
  case (Element e cs)
  have "elem_step\<^sup>*\<^sup>* e (if matches_TARGET_TAGS e then runScan_each e cs else e)"
    by (simp add: elem_steps_runScan_each)
  then show ?case
    using node_steps_Element_map [of e _ cs runScan_subtree] Element.IH by simp
qed (simp_all add: node_steps.intros)

lemma node_steps_runScan_container: "node_steps n (runScan_container n)"
proof (cases n)
  case (Element e cs)
  then show ?thesis
    using node_steps_Element_map [of e e cs runScan_subtree] node_steps_runScan_subtree
    by simp
qed (simp_all add: node_steps.intros)

lemma node_steps_revertAllStyles_subtree: "node_steps n (revertAllStyles_subtree n)"
proof (induction n)
  case (Element e cs)
  have "elem_step\<^sup>*\<^sup>* e (if hasAttribute RTL_STYLE_ATTR e then revertAllStyles_each e else e)"
  proof (cases "hasAttribute RTL_STYLE_ATTR e")
    case True
    then have "elem_step e (revertAllStyles_each e)" by (rule by_revert)
    with True show ?thesis by (simp del: hasAttribute.simps)
  next
    case False
    then show ?thesis by (simp del: hasAttribute.simps)
  qed
  then show ?case
    using node_steps_Element_map [of e _ cs revertAllStyles_subtree] Element.IH by simp
qed (simp_all add: node_steps.intros)

lemma node_steps_removeAttribute_node:
  "node_steps n (removeAttribute_node PROCESSED_ATTR n)"
proof (cases n)
  case (Element e cs)
  have "elem_step\<^sup>*\<^sup>* e (removeAttribute PROCESSED_ATTR e)"
    by (intro r_into_rtranclp by_text_change)
  moreover have "list_all2 node_steps cs cs"
    by (simp add: list_all2_same node_steps_refl)
  ultimately show ?thesis
    using Element by (simp add: steps_Element del: removeAttribute.simps)
qed (simp_all add: node_steps.intros)

lemma node_steps_trans: "node_steps a b \<Longrightarrow> node_steps b c \<Longrightarrow> node_steps a c"
proof (induction arbitrary: c rule: node_steps.induct)
  case (steps_Element e e' cs cs')
  from steps_Element.prems obtain e'' cs'' where
    c: "c = Element e'' cs''" and e: "elem_step\<^sup>*\<^sup>* e' e''" and cs: "list_all2 node_steps cs' cs''"
    by (cases rule: node_steps.cases) auto
  have len: "length cs = length cs'" "length cs' = length cs''"
    using steps_Element.IH cs by (simp_all add: list_all2_lengthD)
  have "node_steps (cs ! i) (cs'' ! i)" if "i < length cs" for i
  proof -
    from steps_Element.IH that have "\<And>d. node_steps (cs' ! i) d \<Longrightarrow> node_steps (cs ! i) d"
      by (simp add: list_all2_conv_all_nth)
    moreover from cs that len have "node_steps (cs' ! i) (cs'' ! i)"
      by (simp add: list_all2_conv_all_nth)
    ultimately show ?thesis by blast
  qed
  with len have "list_all2 node_steps cs cs''"
    by (simp add: list_all2_conv_all_nth)
  moreover from steps_Element.hyps e have "elem_step\<^sup>*\<^sup>* e e''"
    by (rule rtranclp_trans)
  ultimately show ?case
    unfolding c by (rule node_steps.steps_Element [rotated])
qed simp_all

lemma list_all2_update_right:
  assumes "list_all2 P xs xs" and "i < length xs" and "P (xs ! i) y"
  shows "list_all2 P xs (xs[i := y])"
  using assms by (auto simp add: list_all2_conv_all_nth nth_list_update)

lemma node_steps_update_at:
  assumes "\<And>m. node_steps m (f m)"
  shows "node_steps n (update_at p f n)"
proof (induction p arbitrary: n)
  case Nil
  then show ?case by (simp add: assms)
next
  case (Cons i p)
  show ?case
  proof (cases n)
    case (Element e cs)
    show ?thesis
    proof (cases "i < length cs")
      case True
      have "list_all2 node_steps cs cs"
        by (simp add: list_all2_same node_steps_refl)
      then have "list_all2 node_steps cs (cs[i := update_at p f (cs ! i)])"
        using True Cons.IH by (rule list_all2_update_right)
      then show ?thesis
        using Element True by (simp add: steps_Element)
    next
      case False
      with Element show ?thesis by (simp add: node_steps_refl)
    qed
  next
    case (Text t)
    then show ?thesis by (simp add: node_steps.intros)
  next
    case (Comment t)
    then show ?thesis by (simp add: node_steps.intros)
  qed
qed

lemma page_steps_refl: "page_steps s s"
  by (cases "body s") (simp_all add: page_steps_def list_all2_same node_steps_refl)

lemma page_steps_same_document:
  "body s' = body s \<Longrightarrow> detached s' = detached s \<Longrightarrow> page_steps s s'"
  using page_steps_refl [of s] by (simp add: page_steps_def)

lemma page_steps_trans: "page_steps s t \<Longrightarrow> page_steps t u \<Longrightarrow> page_steps s u"
proof -
  assume st: "page_steps s t" and tu: "page_steps t u"
  have "rel_option node_steps (body s) (body u)"
    using st tu by (cases "body s"; cases "body t"; cases "body u")
      (auto simp add: page_steps_def intro: node_steps_trans)
  moreover have "list_all2 node_steps (detached s) (detached u)"
    using st tu node_steps_trans
    by (auto simp add: page_steps_def list_all2_conv_all_nth)
  ultimately show ?thesis by (simp add: page_steps_def)
qed

lemma page_steps_modify:
  assumes "\<And>c m. node_steps m (f c m)"
  shows "page_steps s (modify r f s)"
proof (cases r)
  case NullRef
  then show ?thesis by (simp add: modify_def page_steps_refl)
next
  case (InBody p)
  have "node_steps b (update_at p (f True) b)" for b
    by (rule node_steps_update_at) (rule assms)
  with InBody show ?thesis
    by (cases "body s") (simp_all add: modify_def page_steps_def list_all2_same node_steps_refl)
next
  case (InDetached i p)
  show ?thesis
  proof (cases "i < length (detached s)")
    case True
    have "node_steps (detached s ! i) (update_at p (f False) (detached s ! i))"
      by (rule node_steps_update_at) (rule assms)
    moreover have "list_all2 node_steps (detached s) (detached s)"
      by (simp add: list_all2_same node_steps_refl)
    ultimately have "list_all2 node_steps (detached s)
        ((detached s)[i := update_at p (f False) (detached s ! i)])"
      using True by (intro list_all2_update_right)
    moreover have "rel_option node_steps (body s) (body s)"
      by (cases "body s") (simp_all add: node_steps_refl)
    ultimately show ?thesis
      using InDetached True by (simp add: modify_def page_steps_def)
  next
    case False
    with InDetached show ?thesis by (simp add: modify_def page_steps_refl)
  qed
qed

lemma node_steps_walk: "node_steps m (checkAndFixNode c m)"
  by (rule node_steps_checkAndFixNode)

lemma node_steps_walk_text_parent:
  "node_steps m (checkAndFixNode c (removeAttribute_node PROCESSED_ATTR m))"
  using node_steps_removeAttribute_node node_steps_checkAndFixNode by (rule node_steps_trans)

lemma page_steps_checkAndFixNode_ref: "page_steps s (checkAndFixNode_ref r s)"
  by (simp add: checkAndFixNode_ref_def page_steps_refl page_steps_modify node_steps_walk
      node_steps_walk_text_parent split: option.split node.split)

lemma page_steps_fold:
  assumes "\<And>x s. page_steps s (f x s)"
  shows "page_steps s (fold f xs s)"
proof (induction xs arbitrary: s)
  case Nil
  then show ?case by (simp add: page_steps_refl)
next
  case (Cons x xs)
  have "page_steps s (f x s)" by (rule assms)
  moreover have "page_steps (f x s) (fold f xs (f x s))" by (rule Cons.IH)
  ultimately have "page_steps s (fold f xs (f x s))" by (rule page_steps_trans)
  then show ?case by simp
qed

lemma page_steps_handleMutations_each: "page_steps s (handleMutations_each m s)"
  by (cases m)
     (simp_all add: page_steps_fold page_steps_checkAndFixNode_ref page_steps_modify
        page_steps_refl node_steps_walk_text_parent split: option.split)

lemma page_steps_handleMutations: "page_steps s (handleMutations ms s)"
  by (simp add: handleMutations_def page_steps_fold page_steps_handleMutations_each
      page_steps_refl)

lemma page_steps_runScan: "page_steps s (runScan s)"
  by (cases "body s")
     (simp_all add: runScan_def page_steps_def page_steps_refl list_all2_same node_steps_refl
        node_steps_runScan_container)

lemma page_steps_revertAllStyles: "page_steps s (revertAllStyles s)"
  by (cases "body s")
     (simp_all add: revertAllStyles_def page_steps_def list_all2_same node_steps_refl
        node_steps_revertAllStyles_subtree)

lemma page_steps_startObserver: "page_steps s (startObserver s)"
  by (rule page_steps_same_document) (simp_all add: startObserver_document)

lemma page_steps_stopObserver: "page_steps s (stopObserver s)"
  by (rule page_steps_same_document) (simp_all add: stopObserver_document)

lemma page_steps_run_callback: "page_steps s (run_callback cb s)"
proof (cases cb)
  case StartObserverCB
  then show ?thesis by (simp add: page_steps_startObserver)
next
  case RunInitialScanCB
  then show ?thesis by (simp add: page_steps_same_document addTask_def)
next
  case InitialScanCB
  then show ?thesis by (simp add: page_steps_runScan page_steps_refl)
next
  case SecondScanCB
  let ?s = "if shouldBeActive s \<and> body s \<noteq> None then runScan s else s"
  have "page_steps s ?s"
    by (simp add: page_steps_runScan page_steps_refl)
  moreover have "page_steps ?s (?s\<lparr>secondScanTimer := False\<rparr>)"
    by (rule page_steps_same_document) simp_all
  ultimately have "page_steps s (?s\<lparr>secondScanTimer := False\<rparr>)"
    by (rule page_steps_trans)
  with SecondScanCB show ?thesis by simp
qed

lemma page_steps_onMessage: "page_steps s (onMessage m s)"
proof (cases m)
  case OtherMessage
  then show ?thesis by (simp add: onMessage_def page_steps_refl)
next
  case (UpdateState pl)
  let ?s2 = "s\<lparr>isEnabled := (case payload_isEnabled pl of Some b \<Rightarrow> b | None \<Rightarrow> isEnabled s),
               excludedSites := (case payload_excludedSites pl of
                                   Some xs \<Rightarrow> xs | None \<Rightarrow> excludedSites s)\<rparr>"
  have s2: "page_steps s ?s2"
    by (rule page_steps_same_document) simp_all
  have "page_steps ?s2 (if body s \<noteq> None then runScan ?s2 else ?s2)"
    by (simp add: page_steps_runScan page_steps_refl)
  then have "page_steps ?s2 (startObserver (if body s \<noteq> None then runScan ?s2 else ?s2))"
    using page_steps_startObserver by (rule page_steps_trans)
  with s2 have start:
    "page_steps s (startObserver (if body s \<noteq> None then runScan ?s2 else ?s2))"
    by (rule page_steps_trans)
  have "page_steps ?s2 (revertAllStyles (stopObserver ?s2))"
    using page_steps_stopObserver page_steps_revertAllStyles by (rule page_steps_trans)
  with s2 have stop: "page_steps s (revertAllStyles (stopObserver ?s2))"
    by (rule page_steps_trans)
  have branches: "page_steps s (if x then (if y then a else if z then b else c) else d)"
    if "page_steps s a" "page_steps s b" "page_steps s c" "page_steps s d" for x y z a b c d
    using that by simp
  show ?thesis
    unfolding UpdateState onMessage_UpdateState Let_def
    by (rule branches [OF start stop s2 page_steps_refl])
qed

lemma page_steps_initialize:
  assumes "initialize sendMessage s = Inr s'"
  shows "page_steps s s'"
proof -
  have "body s' = body s \<and> detached s' = detached s"
  proof (cases "getSettingsWithRetry sendMessage 5 200")
    case (Inl err)
    with assms show ?thesis by (simp add: initialize_def)
  next
    case (Inr r)
    obtain v delays where r: "r = (v, delays)" by (cases r)
    show ?thesis
    proof (cases v)
      case None
      with assms Inr r show ?thesis
        by (auto simp add: initialize_def stopObserver_document)
    next
      case (Some st)
      obtain en ex where st: "st = (en, ex)" by (cases st)
      from assms Inr r Some st show ?thesis
        by (auto simp add: initialize_def Let_def startObserver_document stopObserver_document
            addTask_def clearSecondScanTimer_def split: if_splits)
    qed
  qed
  then show ?thesis by (simp add: page_steps_same_document)
qed

lemma page_steps_core_op: "core_op s s' \<Longrightarrow> page_steps s s'"
proof (induction rule: core_op.induct)
  case (op_runScan s)
  show ?case by (rule page_steps_runScan)
next
  case (op_checkAndFixNode s r)
  show ?case by (rule page_steps_checkAndFixNode_ref)
next
  case (op_handleMutations s ms)
  show ?case by (rule page_steps_handleMutations)
next
  case (op_revertAllStyles s)
  show ?case by (rule page_steps_revertAllStyles)
next
  case (op_startObserver s)
  show ?case by (rule page_steps_startObserver)
next
  case (op_stopObserver s)
  show ?case by (rule page_steps_stopObserver)
next
  case (op_callback s cb)
  show ?case by (rule page_steps_run_callback)
next
  case (op_onMessage s m)
  show ?case by (rule page_steps_onMessage)
next
  case (op_initialize sendMessage s s')
  then show ?case by (rule page_steps_initialize)
qed

lemma page_steps_core_ops: "core_op\<^sup>*\<^sup>* s s' \<Longrightarrow> page_steps s s'"
proof (induction rule: rtranclp_induct)
  case base
  show ?case by (rule page_steps_refl)
next
  case (step t u)
  from step.hyps(2) have "page_steps t u" by (rule page_steps_core_op)
  with step.IH show ?case by (rule page_steps_trans)
qed

lemma claimed_steps_keep:
  "claimed_step\<^sup>*\<^sup>* a b \<Longrightarrow>
   processedAttr a \<noteq> None \<or> styleTextAlign a \<noteq> ''left'' \<Longrightarrow>
   processedAttr b \<noteq> None \<or> styleTextAlign b \<noteq> ''left''"
proof (induction rule: rtranclp_induct)
  case base
  then show ?case .
next
  case (step b d)
  from step.hyps(2) show ?case
    by (cases rule: claimed_step.cases)
       (simp_all add: applyRtlStyle_def revertAllStyles_each_def)
qed

lemma editable_td_fields:
  "isHTML editable_td" "localName editable_td = ''td''"
  "contentEditable editable_td = Some ''true''"
  "processedAttr editable_td = None" "styledAttr editable_td = None"
  "styleTextAlign editable_td = ''left''"
  by (simp_all add: editable_td_def plain_def)

lemma editable_td_skipped: "matches_SKIP_SELECTORS editable_td"
  by (simp add: matches_SKIP_SELECTORS_HTML editable_td_fields)

lemma editable_td_target: "matches_TARGET_TAGS editable_td"
  by (simp add: matches_TARGET_TAGS_def list_ex_matches_type_HTML editable_td_fields
      map_ascii_lower_TARGET_TAGS)

lemma matches_SKIP_SELECTORS_removeAttribute:
  "matches_SKIP_SELECTORS (removeAttribute a e) = matches_SKIP_SELECTORS e"
  by (cases a) (simp_all add: matches_SKIP_SELECTORS_def matches_type_def)

lemma checkAndFixNode_text_change_skipped:
  "matches_SKIP_SELECTORS e \<Longrightarrow>
   checkAndFixNode c (removeAttribute_node PROCESSED_ATTR (Element e cs)) =
     Element (removeAttribute PROCESSED_ATTR e) cs"
  by (simp add: matches_SKIP_SELECTORS_removeAttribute del: removeAttribute.simps)

lemma runScan_each_editable_td:
  "runScan_each editable_td cs = setAttribute PROCESSED_ATTR ''scan-checked'' editable_td"
proof -
  have "isPotentialCandidate True editable_td cs = (False, editable_td)"
    using editable_td_skipped by (simp add: isPotentialCandidate_def)
  then show ?thesis
    by (simp add: runScan_each_def editable_td_fields)
qed

lemma removeAttribute_scan_checked_td:
  "removeAttribute PROCESSED_ATTR (setAttribute PROCESSED_ATTR ''scan-checked'' editable_td) =
     editable_td"
  by (simp add: editable_td_def plain_def)

text \<open>
  Claim C10, as stated: the filter leaves an accepted element as it is, and so every
  change of an element is made by \<open>applyRtlStyle\<close>, by the generic marker of the walker
  or of the scanner, or by the revert. The last part fails on a table cell with
  \<open>contenteditable="true"\<close> and an inline \<open>text-align: left\<close>, which matches the skip
  list. A scan marks it \<open>scan-checked\<close>. When a text in it changes, the mutation handler
  removes the marker and the walk ends at the skip test: the cell is back without
  marker, with its alignment, which no sequence of the three named changes gives.
\<close>

theorem C10_modification_counterexample:
  "matches_SKIP_SELECTORS editable_td \<and>
   runScan (active_page editable_td [Text hello]) =
     active_page (setAttribute PROCESSED_ATTR ''scan-checked'' editable_td) [Text hello] \<and>
   handleMutations [CharacterData (InBody [0, 0])]
     (active_page (setAttribute PROCESSED_ATTR ''scan-checked'' editable_td) [Text hello]) =
     active_page editable_td [Text hello] \<and>
   setAttribute PROCESSED_ATTR ''scan-checked'' editable_td \<noteq> editable_td \<and>
   \<not> claimed_step\<^sup>*\<^sup>* (setAttribute PROCESSED_ATTR ''scan-checked'' editable_td) editable_td"
proof -
  let ?e1 = "setAttribute PROCESSED_ATTR ''scan-checked'' editable_td"
  have scan: "runScan (active_page editable_td [Text hello]) = active_page ?e1 [Text hello]"
    using editable_td_target runScan_each_editable_td [of "[Text hello]"]
    by (simp add: runScan_def active_page_def hostnameExcluded_def plain_def
        matches_TARGET_TAGS_def matches_type_def del: setAttribute.simps)
  have "matches_SKIP_SELECTORS ?e1"
    by (simp add: matches_SKIP_SELECTORS_def editable_td_def plain_def)
  from checkAndFixNode_text_change_skipped [OF this, of True "[Text hello]"]
  have walk: "checkAndFixNode True (removeAttribute_node PROCESSED_ATTR (Element ?e1 [Text hello])) =
      Element editable_td [Text hello]"
    by (simp only: removeAttribute_scan_checked_td)
  have target: "deref (active_page ?e1 [Text hello]) (InBody [0, 0]) = Some (Text hello)"
    by (simp add: deref_def active_page_def)
  have "modify (InBody [0])
      (\<lambda>c n. checkAndFixNode c (removeAttribute_node PROCESSED_ATTR n))
      (active_page ?e1 [Text hello]) = active_page editable_td [Text hello]"
    using walk
    by (simp add: modify_def active_page_def
        del: setAttribute.simps removeAttribute_node.simps checkAndFixNode.simps)
  then have text_change: "handleMutations [CharacterData (InBody [0, 0])]
      (active_page ?e1 [Text hello]) = active_page editable_td [Text hello]"
    using target
    by (simp add: handleMutations_def del: setAttribute.simps)
       (simp add: active_page_def hostnameExcluded_def)
  have changed: "?e1 \<noteq> editable_td"
    by (simp add: editable_td_def plain_def)
  have "\<not> claimed_step\<^sup>*\<^sup>* ?e1 editable_td"
  proof
    assume "claimed_step\<^sup>*\<^sup>* ?e1 editable_td"
    then have "processedAttr editable_td \<noteq> None \<or> styleTextAlign editable_td \<noteq> ''left''"
      by (rule claimed_steps_keep) simp
    then show False by (simp add: editable_td_fields)
  qed
  with editable_td_skipped scan text_change changed show ?thesis
    by (intro conjI)
qed

text \<open>
  Claim C10, amended. When \<open>isPotentialCandidate\<close> returns true it has left the element
  as it was, and a second call on it returns true again; every change that the filter
  makes is made on a rejecting branch and is the writing of one of the markers
  \<open>hidden\<close>, \<open>no-rtl\<close>, \<open>already-rtl\<close>, \<open>style-error\<close>. On the accept path the element is
  changed by \<open>applyRtlStyle\<close> alone, in the walker as in the scanner. Every change of an
  element is made by such a marker of the filter, by \<open>applyRtlStyle\<close>, by the generic
  marker of the walker or of the scanner, by the revert, or by the removal of the
  processed marker on a text change: after any sequence of operations of the core the
  trees have their shape and texts, and each element results from the one before by a
  sequence of these changes. The removal on a text change precedes the walk and is
  made on a parent that matches the skip list too, which the walk then leaves alone.
\<close>

theorem C10_element_changes:
  "(isPotentialCandidate c e cs = (True, e') \<longrightarrow>
      e' = e \<and> isPotentialCandidate c e' cs = (True, e') \<and>
      checkAndFix_self c e cs = applyRtlStyle e) \<and>
   (isPotentialCandidate True e cs = (True, e') \<longrightarrow> runScan_each e cs = applyRtlStyle e) \<and>
   (snd (isPotentialCandidate c e cs) \<noteq> e \<longrightarrow>
      \<not> fst (isPotentialCandidate c e cs) \<and>
      (\<exists>v \<in> {''hidden'', ''no-rtl'', ''already-rtl'', ''style-error''}.
         snd (isPotentialCandidate c e cs) = setAttribute PROCESSED_ATTR v e)) \<and>
   elem_step\<^sup>*\<^sup>* e (snd (isPotentialCandidate c e cs)) \<and>
   elem_step\<^sup>*\<^sup>* e (checkAndFix_self c e cs) \<and>
   elem_step\<^sup>*\<^sup>* e (runScan_each e cs) \<and>
   (core_op\<^sup>*\<^sup>* s s' \<longrightarrow> page_steps s s') \<and>
   (matches_SKIP_SELECTORS e \<longrightarrow>
      checkAndFixNode c (removeAttribute_node PROCESSED_ATTR (Element e cs)) =
        Element (removeAttribute PROCESSED_ATTR e) cs)"
proof -
  have accept: "e' = e \<and> isPotentialCandidate c e' cs = (True, e') \<and>
      checkAndFix_self c e cs = applyRtlStyle e"
    if "isPotentialCandidate c e cs = (True, e')"
    using that isPotentialCandidate_result [of c e cs]
    by (auto simp add: checkAndFix_self_def)
  have scan: "runScan_each e cs = applyRtlStyle e"
    if "isPotentialCandidate True e cs = (True, e')"
    using that isPotentialCandidate_result [of True e cs]
    by (auto simp add: runScan_each_def)
  have reject: "\<not> fst (isPotentialCandidate c e cs) \<and>
      (\<exists>v \<in> {''hidden'', ''no-rtl'', ''already-rtl'', ''style-error''}.
         snd (isPotentialCandidate c e cs) = setAttribute PROCESSED_ATTR v e)"
    if "snd (isPotentialCandidate c e cs) \<noteq> e"
    using that isPotentialCandidate_cases [of c e cs]
    by (elim disjE conjE) (simp_all del: setAttribute.simps hasAttribute.simps)
  from accept scan reject elem_steps_isPotentialCandidate [of e c cs]
    elem_steps_checkAndFix_self [of e c cs] elem_steps_runScan_each [of e cs]
    page_steps_core_ops [of s s'] checkAndFixNode_text_change_skipped [of e c cs]
  show ?thesis by blast
qed

theorem C10_element_changes_witness:
  "isPotentialCandidate True (plain ''p'') [Text salam] = (True, plain ''p'') \<and>
   checkAndFix_self True (plain ''p'') [Text salam] = applyRtlStyle (plain ''p'') \<and>
   runScan_each (plain ''p'') [Text salam] = applyRtlStyle (plain ''p'') \<and>
   snd (isPotentialCandidate True (plain ''p'') [Text hello]) \<noteq> plain ''p'' \<and>
   \<not> fst (isPotentialCandidate True (plain ''p'') [Text hello]) \<and>
   page_steps (active_page (plain ''p'') [Text salam])
     (handleMutations [CharacterData (InBody [0, 0])]
        (runScan (active_page (plain ''p'') [Text salam]))) \<and>
   matches_SKIP_SELECTORS editable_td \<and>
   checkAndFixNode True (removeAttribute_node PROCESSED_ATTR (Element editable_td [Text hello])) =
     Element (removeAttribute PROCESSED_ATTR editable_td) [Text hello]"
proof -
  let ?A = "active_page (plain ''p'') [Text salam]"
  let ?B = "runScan ?A"
  let ?C = "handleMutations [CharacterData (InBody [0, 0])] ?B"
  have a: "isPotentialCandidate True (plain ''p'') [Text salam] = (True, plain ''p'')"
    by (rule candidate_plain [OF p_not_skipped])
  have b: "snd (isPotentialCandidate True (plain ''p'') [Text hello]) \<noteq> plain ''p''"
    using regex_test_hello
    unfolding isPotentialCandidate_def matches_SKIP_SELECTORS_plain
    by (simp add: p_not_skipped) (simp add: plain_def ltr_css_def)
  have "core_op ?A ?B" "core_op ?B ?C"
    by (rule core_op.intros)+
  then have steps: "core_op\<^sup>*\<^sup>* ?A ?C"
    by (meson rtranclp.rtrancl_into_rtrancl rtranclp.rtrancl_refl)
  note w1 = C10_element_changes [where c = True and e = "plain ''p''" and cs = "[Text salam]"
      and e' = "plain ''p''" and s = ?A and s' = ?C]
  note w2 = C10_element_changes [where c = True and e = "plain ''p''" and cs = "[Text hello]"
      and e' = "plain ''p''" and s = ?A and s' = ?C]
  note w3 = C10_element_changes [where c = True and e = editable_td and cs = "[Text hello]"
      and e' = editable_td and s = ?A and s' = ?C]
  from a b steps editable_td_skipped w1 w2 w3 show ?thesis
    by blast
qed

end
